theory Spec2Isabelle
  imports Main
begin

section \<open>Data model\<close>

text \<open>
  The \<open>User\<close> collection of the backend. Documents are kept in insertion order, so
  that \<open>findOne\<close> returns the first match. \<open>uid\<close> is the document's \<open>_id\<close>.
  The schema file of the collection is not part of the sources; the fields below are the
  ones the controllers read and write.
\<close>

record user =
  uid :: nat
  firstName :: string
  lastName :: string
  email :: string
  phoneNumber :: string
  password :: string
  gender :: string
  country :: string
  isVerified :: bool
  kycLevel :: nat
  licenseImage :: "string option"
  cnicImages :: "(string \<times> string) option"
  selfieImage :: "string option"
  sponsorId :: string
  sponsorBy :: string
  sponsorTree :: "nat list"
  level :: nat

text \<open>\<open>User.findById(id)\<close>.\<close>

definition findById :: "nat \<Rightarrow> user list \<Rightarrow> user option" where
  "findById i db = find (\<lambda>u. uid u = i) db"

text \<open>
  \<open>doc.save()\<close> for a document whose only modified path is \<open>level\<close>: the stored
  document with the same \<open>_id\<close> receives the new level, every other field stays.
\<close>

fun saveLevel :: "user \<Rightarrow> user list \<Rightarrow> user list" where
  "saveLevel d [] = []"
| "saveLevel d (u # us) =
     (if uid u = uid d then u\<lparr>level := level d\<rparr> # us else u # saveLevel d us)"

section \<open>Referral leveling engine\<close>

text \<open>
  The three \<open>for (const referral of ...)\<close> loops of \<open>updateSponsorLevels\<close> have one
  shape: for every document of the snapshot, query the sub-referrals in the current
  store, and when there are at least three and the snapshot's level is below the target,
  store the target level and count the promotion. \<open>q\<close> is the sub-referral query,
  \<open>k\<close> the target level and \<open>n\<close> the running total.
\<close>

fun promoteLoop :: "(user \<Rightarrow> user \<Rightarrow> bool) \<Rightarrow> nat \<Rightarrow> user list \<Rightarrow> user list \<Rightarrow> nat
    \<Rightarrow> user list \<times> nat" where
  "promoteLoop q k [] db n = (db, n)"
| "promoteLoop q k (referral # rest) db n =
     (if 3 \<le> length (filter (q referral) db) \<and> level referral < k
      then promoteLoop q k rest (saveLevel (referral\<lparr>level := k\<rparr>) db) (n + 1)
      else promoteLoop q k rest db n)"

text \<open>\<open>User.find({ sponsorBy: referral.sponsorId })\<close>\<close>

definition subReferrals :: "user \<Rightarrow> user \<Rightarrow> bool" where
  "subReferrals referral u = (sponsorBy u = sponsorId referral)"

text \<open>\<open>User.find({ sponsorBy: referral.sponsorId, level: l })\<close>\<close>

definition subReferralsAt :: "nat \<Rightarrow> user \<Rightarrow> user \<Rightarrow> bool" where
  "subReferralsAt l referral u = (sponsorBy u = sponsorId referral \<and> level u = l)"

text \<open>
  The body of \<open>updateSponsorLevels\<close> for the loaded document \<open>user\<close>, up to and
  including \<open>user.save()\<close>. The in-memory document is changed step by step while the
  children are saved to the store one at a time; the final save writes the level only if
  it was assigned (a save with no modified path sends nothing).
\<close>

definition evalNode :: "user \<Rightarrow> user list \<Rightarrow> user list" where
  "evalNode user db =
     (let directReferrals = length (sponsorTree user);
          user1 = (if 3 \<le> directReferrals \<and> level user < 1 then user\<lparr>level := 1\<rparr> else user);
          allReferrals = filter (\<lambda>u. sponsorBy u = sponsorId user) db;
          (db2, totalLevel2Referrals) = promoteLoop subReferrals 2 allReferrals db 0;
          user2 = (if 3 \<le> totalLevel2Referrals \<and> level user1 < 2
                   then user1\<lparr>level := 2\<rparr> else user1);
          level3Referrals = filter (\<lambda>u. level u = 2 \<and> sponsorBy u = sponsorId user) db2;
          (db3, totalLevel3Referrals) = promoteLoop (subReferralsAt 2) 3 level3Referrals db2 0;
          user3 = (if 3 \<le> totalLevel3Referrals \<and> level user2 < 3
                   then user2\<lparr>level := 3\<rparr> else user2);
          level4Referrals = filter (\<lambda>u. level u = 3 \<and> sponsorBy u = sponsorId user) db3;
          (db4, totalLevel4Referrals) = promoteLoop (subReferralsAt 3) 4 level4Referrals db3 0;
          user4 = (if 3 \<le> totalLevel4Referrals \<and> level user3 < 4
                   then user3\<lparr>level := 4\<rparr> else user3);
          user5 = (if 4 < level user4 then user4\<lparr>level := 4\<rparr> else user4)
      in if level user5 = level user then db4 else saveLevel user5 db4)"

text \<open>
  \<open>updateSponsorLevels(userId)\<close>. The recursion up the sponsor chain has no bound in
  the source; the first argument is the number of calls still allowed, and \<open>None\<close>
  means that the chain was longer.
\<close>

fun updateSponsorLevels :: "nat \<Rightarrow> nat \<Rightarrow> user list \<Rightarrow> user list option" where
  "updateSponsorLevels 0 userId db = None"
| "updateSponsorLevels (Suc fuel) userId db =
     (case findById userId db of
        None \<Rightarrow> Some db
      | Some user \<Rightarrow>
          (let db' = evalNode user db in
           if sponsorBy user \<noteq> ''root'' then
             (case find (\<lambda>u. sponsorId u = sponsorBy user) db' of
                None \<Rightarrow> Some db'
              | Some parentSponsor \<Rightarrow> updateSponsorLevels fuel (uid parentSponsor) db')
           else Some db'))"

section \<open>Verification sessions and handlers\<close>

text \<open>
  The \<open>TempUser\<close> collection (models/tempUserModel.js): \<open>email\<close>, \<open>phoneNumber\<close>
  and \<open>tempId\<close> carry a unique index, \<open>createdAt\<close> defaults to the time of creation
  (milliseconds since the epoch). \<open>tid\<close> is the document's \<open>_id\<close>.
\<close>

record tempUser =
  tid :: nat
  tEmail :: string
  tPhoneNumber :: string
  tempId :: string
  otp :: string
  createdAt :: int

text \<open>A message handed to \<open>transporter.sendMail\<close>: recipient and the OTP in its body.\<close>

record mail =
  mailTo :: string
  mailOtp :: string

record state =
  users :: "user list"
  tempUsers :: "tempUser list"
  outbox :: "mail list"

text \<open>
  The failures of the handlers, named as in the specification's taxonomy. In the source
  they are a status code and a message: \<open>ValidationError\<close> is 400 with a "required" or
  "must contain" message, \<open>NotFound\<close> 404, \<open>Expired\<close> 400 "OTP has expired",
  \<open>InvalidOtp\<close> 400 "Invalid OTP", \<open>Conflict\<close> 400 "User already exists",
  \<open>PermissionDenied\<close> 403, and \<open>ServerError\<close> 500: an exception that is not one of
  the handler's own (a duplicate key, a failed upload, a reference to an unbound name).
\<close>

datatype error =
  ValidationError | NotFound | Expired | InvalidOtp | Conflict | PermissionDenied | ServerError

fun status :: "error \<Rightarrow> nat" where
  "status ValidationError = 400"
| "status NotFound = 404"
| "status Expired = 400"
| "status InvalidOtp = 400"
| "status Conflict = 400"
| "status PermissionDenied = 403"
| "status ServerError = 500"

text \<open>The registration fields of the request body; an absent field is the empty string.\<close>

record registration =
  regFirstName :: string
  regLastName :: string
  regPassword :: string
  regSponsorBy :: string
  regGender :: string

text \<open>\<open>doc.save()\<close> on a session and \<open>TempUser.findByIdAndDelete\<close>.\<close>

fun saveTemp :: "tempUser \<Rightarrow> tempUser list \<Rightarrow> tempUser list" where
  "saveTemp d [] = []"
| "saveTemp d (t # ts) = (if tid t = tid d then d # ts else t # saveTemp d ts)"

fun deleteTemp :: "nat \<Rightarrow> tempUser list \<Rightarrow> tempUser list" where
  "deleteTemp i [] = []"
| "deleteTemp i (t # ts) = (if tid t = i then ts else t # deleteTemp i ts)"

text \<open>
  \<open>signupUser\<close>. \<open>newTempId\<close> is the value of \<open>uuidv4()\<close>, \<open>newOtp\<close> of
  \<open>generateOTP()\<close>, \<open>now\<close> the clock and \<open>newTid\<close> the \<open>_id\<close> given to a created
  document. A write that breaks a unique index throws, which the handler does not catch.
\<close>

definition signupUser :: "registration \<Rightarrow> string \<Rightarrow> string \<Rightarrow> string \<Rightarrow> string \<Rightarrow> int \<Rightarrow> nat
    \<Rightarrow> state \<Rightarrow> (error + string) \<times> state" where
  "signupUser reg email' phone newTempId newOtp now newTid st =
     (if regFirstName reg = [] \<or> regLastName reg = [] \<or> email' = [] \<or> phone = []
         \<or> regPassword reg = [] \<or> regSponsorBy reg = [] \<or> regGender reg = []
      then (Inl ValidationError, st)
      else
        (case find (\<lambda>t. tEmail t = email') (tempUsers st) of
           Some tempUser \<Rightarrow>
             if \<exists>t \<in> set (tempUsers st). tid t \<noteq> tid tempUser \<and> tempId t = newTempId
             then (Inl ServerError, st)
             else (Inr newTempId,
                   st\<lparr>tempUsers :=
                        saveTemp (tempUser\<lparr>tempId := newTempId, otp := newOtp\<rparr>) (tempUsers st),
                      outbox := outbox st @ [\<lparr>mailTo = email', mailOtp = newOtp\<rparr>]\<rparr>)
         | None \<Rightarrow>
             if \<exists>t \<in> set (tempUsers st). tPhoneNumber t = phone \<or> tempId t = newTempId
             then (Inl ServerError, st)
             else (Inr newTempId,
                   st\<lparr>tempUsers := tempUsers st @
                        [\<lparr>tid = newTid, tEmail = email', tPhoneNumber = phone,
                          tempId = newTempId, otp = newOtp, createdAt = now\<rparr>],
                      outbox := outbox st @ [\<lparr>mailTo = email', mailOtp = newOtp\<rparr>]\<rparr>)))"

text \<open>
  Modelled from the spec: the schema of \<open>User\<close> (models/userModel.js is not in the
  sources) gives a created document its defaults: trust level 0, rank 0, an empty child
  list, no artifacts. \<open>newUid\<close> is the \<open>_id\<close> and \<open>newSponsorId\<close> the referral code the
  schema generates.
\<close>

definition createUser :: "registration \<Rightarrow> string \<Rightarrow> string \<Rightarrow> nat \<Rightarrow> string \<Rightarrow> user" where
  "createUser reg email' phone newUid newSponsorId =
     \<lparr>uid = newUid, firstName = regFirstName reg, lastName = regLastName reg,
      email = email', phoneNumber = phone, password = regPassword reg,
      gender = regGender reg, country = [], isVerified = True, kycLevel = 0,
      licenseImage = None, cnicImages = None, selfieImage = None,
      sponsorId = newSponsorId, sponsorBy = regSponsorBy reg, sponsorTree = [], level = 0\<rparr>"

text \<open>
  \<open>verifyOTPUser\<close>. The result is \<open>None\<close> when the leveling engine does not return
  within \<open>fuel\<close> calls. \<open>sponsor.sponsorTree.push(user._id)\<close> changes the loaded
  document only: no \<open>save\<close> follows, and \<open>updateSponsorLevels\<close> receives
  \<open>sponsor._id\<close> and loads the stored document again.
\<close>

definition verifyOTPUser :: "nat \<Rightarrow> registration \<Rightarrow> string \<Rightarrow> string \<Rightarrow> int \<Rightarrow> nat \<Rightarrow> string
    \<Rightarrow> state \<Rightarrow> ((error + nat) \<times> state) option" where
  "verifyOTPUser fuel reg tempId' otp' now newUid newSponsorId st =
     (if tempId' = [] \<or> otp' = [] \<or> regFirstName reg = [] \<or> regLastName reg = []
         \<or> regPassword reg = [] \<or> regSponsorBy reg = [] \<or> regGender reg = []
      then Some (Inl ValidationError, st)
      else
        (case find (\<lambda>t. tempId t = tempId') (tempUsers st) of
           None \<Rightarrow> Some (Inl NotFound, st)
         | Some tempUser \<Rightarrow>
             if createdAt tempUser + 10 * 60 * 1000 < now
             then Some (Inl Expired, st\<lparr>tempUsers := deleteTemp (tid tempUser) (tempUsers st)\<rparr>)
             else if otp tempUser \<noteq> otp' then Some (Inl InvalidOtp, st)
             else if find (\<lambda>u. email u = tEmail tempUser \<or> phoneNumber u = tPhoneNumber tempUser)
                       (users st) \<noteq> None
             then Some (Inl Conflict, st)
             else
               (let user = createUser reg (tEmail tempUser) (tPhoneNumber tempUser)
                             newUid newSponsorId;
                    db = users st @ [user];
                    leveled =
                      (case find (\<lambda>u. sponsorId u = regSponsorBy reg) db of
                         None \<Rightarrow> Some db
                       | Some sponsor \<Rightarrow>
                           (let pushed = sponsor\<lparr>sponsorTree := sponsorTree sponsor @ [uid user]\<rparr>
                            in updateSponsorLevels fuel (uid pushed) db))
                in case leveled of
                     None \<Rightarrow> None
                   | Some db' \<Rightarrow>
                       Some (Inr (uid user),
                             st\<lparr>users := db',
                                tempUsers := deleteTemp (tid tempUser) (tempUsers st)\<rparr>))))"

text \<open>
  \<open>resendOtp\<close>. After the new OTP is saved, the argument of \<open>sendMail\<close> is built from
  a template that reads \<open>firstName\<close> and \<open>lastName\<close>; neither is bound in this
  handler (only \<open>tempId\<close> is taken from the body) nor in the module, so building the
  message throws a ReferenceError before \<open>sendMail\<close> is called.
\<close>

definition resendOtp :: "string \<Rightarrow> string \<Rightarrow> state \<Rightarrow> (error + string) \<times> state" where
  "resendOtp tempId' newOtp st =
     (if tempId' = [] then (Inl ValidationError, st)
      else
        (case find (\<lambda>t. tempId t = tempId') (tempUsers st) of
           None \<Rightarrow> (Inl NotFound, st)
         | Some tempUser \<Rightarrow>
             (Inl ServerError,
              st\<lparr>tempUsers := saveTemp (tempUser\<lparr>otp := newOtp\<rparr>) (tempUsers st)\<rparr>)))"

section \<open>Identity state machine\<close>

text \<open>\<open>user.save()\<close> of a document loaded in the same handler: the stored document is replaced.\<close>

fun saveUser :: "user \<Rightarrow> user list \<Rightarrow> user list" where
  "saveUser d [] = []"
| "saveUser d (u # us) = (if uid u = uid d then d # us else u # saveUser d us)"

text \<open>\<open>fullName.split(" ")\<close>: a split at every space; the empty string gives one empty piece.\<close>

fun splitSpace :: "string \<Rightarrow> string list" where
  "splitSpace [] = [[]]"
| "splitSpace (c # cs) =
     (if c = CHR '' '' then [] # splitSpace cs
      else (case splitSpace cs of [] \<Rightarrow> [[c]] | w # ws \<Rightarrow> (c # w) # ws))"

text \<open>\<open>fullName.split(" ").filter(Boolean)\<close>\<close>

definition nameTokens :: "string \<Rightarrow> string list" where
  "nameTokens fullName = filter (\<lambda>w. w \<noteq> []) (splitSpace fullName)"

text \<open>
  \<open>submitKYC\<close> (the handler of the current controller; the older copy in
  controllers/userController.js treats the name the same way). An image is the path of
  the first uploaded file of its field, \<open>None\<close> when the field is absent; \<open>upload\<close> is
  the storage collaborator, \<open>None\<close> when it throws.
\<close>

definition submitKYC :: "nat option \<Rightarrow> string \<Rightarrow> string \<Rightarrow> string \<Rightarrow> string option \<Rightarrow> string option
    \<Rightarrow> string option \<Rightarrow> (string \<Rightarrow> string \<Rightarrow> string option) \<Rightarrow> state \<Rightarrow> (error + unit) \<times> state" where
  "submitKYC userId fullName country' gender' frontImage backImage selfieImage' upload st =
     (case (userId, frontImage, backImage, selfieImage') of
        (Some i, Some front, Some back, Some selfie) \<Rightarrow>
          if fullName = [] \<or> country' = [] then (Inl ValidationError, st)
          else
            (case nameTokens fullName of
               firstName' # lastName' # _ \<Rightarrow>
                 (case findById i (users st) of
                    None \<Rightarrow> (Inl NotFound, st)
                  | Some user \<Rightarrow>
                      (case upload front ''kyc/front'' of
                         None \<Rightarrow> (Inl ServerError, st)
                       | Some frontUrl \<Rightarrow>
                      (case upload back ''kyc/back'' of
                         None \<Rightarrow> (Inl ServerError, st)
                       | Some backUrl \<Rightarrow>
                      (case upload selfie ''kyc/selfie'' of
                         None \<Rightarrow> (Inl ServerError, st)
                       | Some selfieUrl \<Rightarrow>
                           (Inr (),
                            st\<lparr>users := saveUser
                                 (user\<lparr>firstName := firstName', lastName := lastName',
                                       country := country', gender := gender',
                                       cnicImages := Some (frontUrl, backUrl),
                                       selfieImage := Some selfieUrl, kycLevel := 1\<rparr>)
                                 (users st)\<rparr>)))))
             | _ \<Rightarrow> (Inl ValidationError, st))
      | _ \<Rightarrow> (Inl ValidationError, st))"

text \<open>
  \<open>uploadLicense\<close> of the drivers' controller; \<open>licenseImage'\<close> is the handler's
  \<open>licenseImage\<close>, read from \<open>req.files\<close> (see \<open>licenseImageOf\<close> below). After
  \<open>user.save()\<close> the handler calls \<open>jwt.sign\<close>, but the module imports only the two
  models and \<open>cloudinary\<close>: \<open>jwt\<close> is unbound, the call throws a ReferenceError inside
  the \<open>try\<close> block, and the \<open>catch\<close> answers with status 500. The save before it stays.
\<close>

definition uploadLicense :: "nat \<Rightarrow> string option \<Rightarrow> (string \<Rightarrow> string \<Rightarrow> string option) \<Rightarrow> state
    \<Rightarrow> (error + unit) \<times> state" where
  "uploadLicense userId licenseImage' upload st =
     (case findById userId (users st) of
        None \<Rightarrow> (Inl NotFound, st)
      | Some user \<Rightarrow>
          if kycLevel user < 1 then (Inl PermissionDenied, st)
          else
            (case licenseImage' of
               None \<Rightarrow> (Inl ValidationError, st)
             | Some file \<Rightarrow>
                 (case upload file ''kyc/license'' of
                    None \<Rightarrow> (Inl ServerError, st)
                  | Some url \<Rightarrow>
                      (Inl ServerError,
                       st\<lparr>users := saveUser (user\<lparr>kycLevel := 2, licenseImage := Some url\<rparr>)
                                     (users st)\<rparr>))))"

text \<open>
  What the upload middleware leaves on the request: \<open>req.file\<close>, and \<open>req.files\<close> as
  the list of the fields with their files, \<open>None\<close> when it is not set.
\<close>

record uploaded =
  reqFile :: "string option"
  reqFiles :: "(string \<times> string list) list option"

text \<open>
  \<open>upload.single(field)\<close> of routes/driversRoutes.js: of the parts of the multipart
  body (field name and stored path), the file of the named field is put in \<open>req.file\<close>;
  \<open>req.files\<close> is not set.
\<close>

definition uploadSingle :: "string \<Rightarrow> (string \<times> string) list \<Rightarrow> uploaded" where
  "uploadSingle field parts = \<lparr>reqFile = map_of parts field, reqFiles = None\<rparr>"

text \<open>
  \<open>req.files?.licenseImage ? req.files.licenseImage[0] : null\<close>, the first statement
  of \<open>uploadLicense\<close> after the body is read. An empty array gives \<open>undefined\<close>, which
  the handler treats like \<open>null\<close>.
\<close>

definition licenseImageOf :: "uploaded \<Rightarrow> string option" where
  "licenseImageOf req =
     (case reqFiles req of
        None \<Rightarrow> None
      | Some files \<Rightarrow>
          (case map_of files ''licenseImage'' of
             None \<Rightarrow> None
           | Some [] \<Rightarrow> None
           | Some (file # _) \<Rightarrow> Some file))"

text \<open>
  The route \<open>POST /upload-license\<close>, in both copies of routes/driversRoutes.js:
  \<open>authHandler\<close>, then \<open>upload.single("licenseImage")\<close>, then \<open>uploadLicense\<close>.
  The authentication middleware is not in the sources; the request is taken as
  authenticated.
\<close>

definition uploadLicenseRoute :: "nat \<Rightarrow> (string \<times> string) list \<Rightarrow> (string \<Rightarrow> string \<Rightarrow> string option)
    \<Rightarrow> state \<Rightarrow> (error + unit) \<times> state" where
  "uploadLicenseRoute userId parts upload st =
     uploadLicense userId (licenseImageOf (uploadSingle ''licenseImage'' parts)) upload st"

section \<open>Sequences of operations\<close>

datatype operation =
  Signup registration string string string string int nat
| Verify registration string string int nat string
| Level nat

text \<open>
  One operation on the state; a failed handler keeps the state it left behind. \<open>None\<close>
  when the leveling engine does not return within \<open>fuel\<close> calls.
\<close>

fun applyOp :: "nat \<Rightarrow> operation \<Rightarrow> state \<Rightarrow> state option" where
  "applyOp fuel (Signup reg e p t c now i) st = Some (snd (signupUser reg e p t c now i st))"
| "applyOp fuel (Verify reg t c now i s) st = map_option snd (verifyOTPUser fuel reg t c now i s st)"
| "applyOp fuel (Level i) st =
     map_option (\<lambda>db. st\<lparr>users := db\<rparr>) (updateSponsorLevels fuel i (users st))"

fun runOps :: "nat \<Rightarrow> operation list \<Rightarrow> state \<Rightarrow> state option" where
  "runOps fuel [] st = Some st"
| "runOps fuel (x # xs) st =
     (case applyOp fuel x st of None \<Rightarrow> None | Some st' \<Rightarrow> runOps fuel xs st')"

section \<open>Notions used in the statements\<close>

text \<open>
  The level that the in-memory document of \<open>updateSponsorLevels\<close> holds when it is
  saved, as a function of the three totals counted by the loops: the four checks in
  sequence, then the cap.
\<close>

definition finalLevel :: "user \<Rightarrow> nat \<Rightarrow> nat \<Rightarrow> nat \<Rightarrow> nat" where
  "finalLevel user n2 n3 n4 =
     (let l1 = (if 3 \<le> length (sponsorTree user) \<and> level user < 1 then 1 else level user);
          l2 = (if 3 \<le> n2 \<and> l1 < 2 then 2 else l1);
          l3 = (if 3 \<le> n3 \<and> l2 < 3 then 3 else l2);
          l4 = (if 3 \<le> n4 \<and> l3 < 4 then 4 else l3)
      in if 4 < l4 then 4 else l4)"

text \<open>
  How a stored document may differ after the engine has run: every field but the level
  is the same, the level did not go down, and it is at most 4.
\<close>

definition grows :: "user \<Rightarrow> user \<Rightarrow> bool" where
  "grows u v \<longleftrightarrow> v\<lparr>level := 0\<rparr> = u\<lparr>level := 0\<rparr> \<and> level u \<le> level v \<and> level v \<le> 4"

text \<open>
  A well-formed referral network: identifiers and referral codes are unique, and the
  \<open>sponsorBy\<close> edges between stored users go strictly down along a rank \<open>d\<close> of the
  referral codes, so that no user is its own ancestor.
\<close>

definition forest :: "(string \<Rightarrow> nat) \<Rightarrow> user list \<Rightarrow> bool" where
  "forest d db \<longleftrightarrow>
     distinct (map uid db) \<and> distinct (map sponsorId db)
     \<and> (\<forall>u \<in> set db. \<forall>p \<in> set db. sponsorBy u = sponsorId p \<longrightarrow> d (sponsorId p) < d (sponsorId u))"

text \<open>
  The engine has nothing to do at node \<open>a\<close>: none of its checks on \<open>a\<close> and none of
  the loop conditions on a child of \<open>a\<close> holds in the store.
\<close>

definition quiet :: "user \<Rightarrow> user list \<Rightarrow> bool" where
  "quiet a db \<longleftrightarrow>
     \<not> (3 \<le> length (sponsorTree a) \<and> level a < 1) \<and> level a \<le> 4
     \<and> (\<forall>c \<in> set db. sponsorBy c = sponsorId a \<longrightarrow>
           \<not> (3 \<le> length (filter (subReferrals c) db) \<and> level c < 2)
           \<and> \<not> (level c = 2 \<and> 3 \<le> length (filter (subReferralsAt 2 c) db))
           \<and> \<not> (level c = 3 \<and> 3 \<le> length (filter (subReferralsAt 3 c) db)))"

text \<open>
  What one loop does to a document of the store it started from: a document of the
  snapshot that meets the loop's condition gets the target level.
\<close>

definition promoted :: "(user \<Rightarrow> user \<Rightarrow> bool) \<Rightarrow> nat \<Rightarrow> user list \<Rightarrow> user list \<Rightarrow> user \<Rightarrow> user" where
  "promoted q k refs db u =
     (if u \<in> set refs \<and> 3 \<le> length (filter (q u) db) \<and> level u < k then u\<lparr>level := k\<rparr> else u)"

text \<open>
  The level that the three loops together give to a child \<open>c\<close> of the evaluated node in
  a well-formed network, from the counts in the store the evaluation started from.
\<close>

definition childLevel :: "user list \<Rightarrow> user \<Rightarrow> nat" where
  "childLevel db c =
     (let l2 = (if 3 \<le> length (filter (subReferrals c) db) \<and> level c < 2 then 2 else level c);
          l3 = (if l2 = 2 \<and> 3 \<le> length (filter (subReferralsAt 2 c) db) then 3 else l2)
      in if l3 = 3 \<and> 3 \<le> length (filter (subReferralsAt 3 c) db) then 4 else l3)"

text \<open>The children of the node with referral code \<open>s\<close> get the level \<open>L\<close> assigns.\<close>

definition relabel :: "string \<Rightarrow> (user \<Rightarrow> nat) \<Rightarrow> user \<Rightarrow> user" where
  "relabel s L u = (if sponsorBy u = s then u\<lparr>level := L u\<rparr> else u)"

text \<open>
  What a walk of the engine through nodes of rank at most \<open>m\<close> may do to a document:
  only the level changes; a document of a code ranked above \<open>m\<close> is left alone or set
  to level 2, 3 or 4, and it is left alone when its sponsor's code is ranked above \<open>m\<close>
  too.
\<close>

definition keeps :: "(string \<Rightarrow> nat) \<Rightarrow> nat \<Rightarrow> user \<Rightarrow> user \<Rightarrow> bool" where
  "keeps d m u v \<longleftrightarrow>
     v\<lparr>level := 0\<rparr> = u\<lparr>level := 0\<rparr>
     \<and> (m < d (sponsorId u) \<longrightarrow>
          (v = u \<or> level v = 2 \<or> level v = 3 \<or> level v = 4) \<and> (m < d (sponsorBy u) \<longrightarrow> v = u))"

section \<open>Example networks and states\<close>

text \<open>A user document with the given identity, referral fields and rank.\<close>

definition exUser :: "nat \<Rightarrow> string \<Rightarrow> string \<Rightarrow> nat list \<Rightarrow> nat \<Rightarrow> user" where
  "exUser i sid sby tree l =
     \<lparr>uid = i, firstName = ''Test'', lastName = ''User'', email = ''u@example.org'',
      phoneNumber = ''000'', password = ''secret'', gender = ''f'', country = ''PK'',
      isVerified = True, kycLevel = 0, licenseImage = None, cnicImages = None,
      selfieImage = None, sponsorId = sid, sponsorBy = sby, sponsorTree = tree, level = l\<rparr>"

text \<open>
  A sponsor \<open>P\<close> under a root-sponsored \<open>Q\<close>, with three children that have no
  referrals of their own; \<open>P\<close> lists the three in its \<open>sponsorTree\<close>.
\<close>

definition exFamily :: "user list" where
  "exFamily =
     [exUser 0 ''Q'' ''root'' [1] 0,
      exUser 1 ''QP'' ''Q'' [2, 3, 4] 0,
      exUser 2 ''QPA'' ''QP'' [] 0,
      exUser 3 ''QPB'' ''QP'' [] 0,
      exUser 4 ''QPC'' ''QP'' [] 0]"

definition exReg :: "string \<Rightarrow> registration" where
  "exReg sby = \<lparr>regFirstName = ''Ann'', regLastName = ''Lee'', regPassword = ''pw'',
                regSponsorBy = sby, regGender = ''f''\<rparr>"

definition exSession :: tempUser where
  "exSession = \<lparr>tid = 0, tEmail = ''ann@example.org'', tPhoneNumber = ''111'',
                 tempId = ''T1'', otp = ''123456'', createdAt = 1000\<rparr>"

text \<open>One root-sponsored sponsor with referral code \<open>S\<close> and one pending session.\<close>

definition exState :: state where
  "exState = \<lparr>users = [exUser 0 ''S'' ''root'' [] 0], tempUsers = [exSession], outbox = []\<rparr>"

text \<open>A storage collaborator that always succeeds.\<close>

definition exUpload :: "string \<Rightarrow> string \<Rightarrow> string option" where
  "exUpload file folder = Some (folder @ ''/'' @ file)"

text \<open>A root-sponsored sponsor \<open>P\<close> listing three children that have no referrals.\<close>

definition exTrio :: "user list" where
  "exTrio =
     [exUser 0 ''P'' ''root'' [1, 2, 3] 0,
      exUser 1 ''PA'' ''P'' [] 0,
      exUser 2 ''PB'' ''P'' [] 0,
      exUser 3 ''PC'' ''P'' [] 0]"

text \<open>
  A root-sponsored sponsor \<open>P\<close> with three children, each of which has three children
  of its own; nobody has a rank yet.
\<close>

definition exDeep :: "user list" where
  "exDeep =
     [exUser 0 ''P'' ''root'' [1, 2, 3] 0,
      exUser 1 ''PA'' ''P'' [4, 5, 6] 0,
      exUser 2 ''PB'' ''P'' [7, 8, 9] 0,
      exUser 3 ''PC'' ''P'' [10, 11, 12] 0,
      exUser 4 ''PAA'' ''PA'' [] 0,
      exUser 5 ''PAB'' ''PA'' [] 0,
      exUser 6 ''PAC'' ''PA'' [] 0,
      exUser 7 ''PBA'' ''PB'' [] 0,
      exUser 8 ''PBB'' ''PB'' [] 0,
      exUser 9 ''PBC'' ''PB'' [] 0,
      exUser 10 ''PCA'' ''PC'' [] 0,
      exUser 11 ''PCB'' ''PC'' [] 0,
      exUser 12 ''PCC'' ''PC'' [] 0]"

text \<open>
  \<open>P\<close> with two listed children at rank 0, and \<open>P\<close> at rank 1 with four listed
  children.
\<close>

definition exPair :: "user list" where
  "exPair =
     [exUser 0 ''P'' ''root'' [1, 2] 0,
      exUser 1 ''PA'' ''P'' [] 0,
      exUser 2 ''PB'' ''P'' [] 0]"

definition exFour :: "user list" where
  "exFour =
     [exUser 0 ''P'' ''root'' [1, 2, 3, 4] 1,
      exUser 1 ''PA'' ''P'' [] 0,
      exUser 2 ''PB'' ''P'' [] 0,
      exUser 3 ''PC'' ''P'' [] 0,
      exUser 4 ''PD'' ''P'' [] 0]"

text \<open>The state of \<open>exState\<close> with the sponsor at trust level 1.\<close>

definition exKyc1 :: state where
  "exKyc1 = exState\<lparr>users := [(exUser 0 ''S'' ''root'' [] 0)\<lparr>kycLevel := 1\<rparr>]\<rparr>"

section \<open>Properties\<close>

subsection \<open>Behaviour at concrete inputs\<close>

text \<open>
  C3. Claimed: after a successful \<open>verifyOTPUser\<close> whose \<open>sponsorBy\<close> names an
  existing user, the sponsor's stored \<open>sponsorTree\<close> contains the new user's id.
  The handler pushes the id onto the loaded sponsor document and never saves it: at
  \<open>exState\<close> the admission of user 1 under sponsor 0 succeeds, the \<open>sponsorBy\<close> edge is
  stored, and the stored \<open>sponsorTree\<close> of the sponsor is still empty.
\<close>

theorem sponsorTree_push_not_stored:
  "map_option (\<lambda>(r, s). (r, map (\<lambda>u. (uid u, sponsorBy u, sponsorTree u)) (users s)))
     (verifyOTPUser 5 (exReg ''S'') ''T1'' ''123456'' 2000 1 ''S1'' exState)
   = Some (Inr 1, [(0, ''root'', []), (1, ''S'', [])])"
  by code_simp

text \<open>
  C8. Claimed: for an existing session \<open>resendOtp\<close> stores a new OTP, keeps
  \<open>createdAt\<close> and sends the new OTP to the session's email. The handler stores the new
  OTP and then fails while building the message, before anything is sent: at \<open>exState\<close>
  the answer is the server error, the stored OTP is the new one, and the outbox is empty.
\<close>

theorem resend_sends_nothing:
  "(case resendOtp ''T1'' ''654321'' exState of
      (r, s) \<Rightarrow> (map_sum status id r, map otp (tempUsers s), map createdAt (tempUsers s), outbox s))
   = (Inl 500, [''654321''], [1000], [])"
  by code_simp

text \<open>
  C9. Claimed: \<open>uploadLicense\<close> for a user at trust level 1 with a license artifact
  succeeds and sets trust level 2. The route stores the uploaded license in \<open>req.file\<close>
  while the handler looks for it in \<open>req.files\<close>: at \<open>exKyc1\<close>, with the license sent
  in the field \<open>licenseImage\<close>, the handler finds no image, answers status 400
  ("License image is required") and leaves the stored trust level at 1.
\<close>

theorem uploadLicense_route_answers_400:
  "licenseImageOf (uploadSingle ''licenseImage'' [(''licenseImage'', ''license.png'')]) = None
   \<and> (case uploadLicenseRoute 0 [(''licenseImage'', ''license.png'')] exUpload exKyc1 of
         (r, s) \<Rightarrow> (map_sum status id r, map kycLevel (users s)))
       = (Inl 400, [1])"
  by code_simp

text \<open>
  The statement of C1 fails as written: the first check of the engine counts the entries
  of \<open>sponsorTree\<close>, whatever the rank of the children. In \<open>exTrio\<close> no child of
  \<open>P\<close> has rank 1 or more, and the engine promotes \<open>P\<close> to rank 1.
\<close>

theorem promotion_ignores_child_rank:
  "length (filter (\<lambda>u. sponsorBy u = ''P'' \<and> 1 \<le> level u) exTrio) = 0
   \<and> map_option (map level) (updateSponsorLevels 5 0 exTrio) = Some [1, 0, 0, 0]"
  by code_simp

text \<open>
  The statement of C2 fails as written: in \<open>exDeep\<close> a single call of the engine at
  \<open>P\<close> takes \<open>P\<close> from rank 0 to rank 2 (the first check gives rank 1, the second,
  after three children were promoted, rank 2), and each child from rank 0 to rank 2.
\<close>

theorem rank_jumps_two:
  "map level exDeep = [0, 0, 0, 0, 0, 0, 0, 0, 0, 0, 0, 0, 0]
   \<and> map_option (map level) (updateSponsorLevels 1 0 exDeep)
       = Some [2, 2, 2, 2, 0, 0, 0, 0, 0, 0, 0, 0, 0]"
  by code_simp

text \<open>
  The statement of C7 fails as written: a second signup for the email of a pending
  session stores a new \<open>tempId\<close> and OTP but keeps \<open>createdAt\<close>. Signing up again
  at time 300000 leaves \<open>createdAt = 1000\<close>, and the second OTP is refused as expired
  at time 602000, five minutes after it was issued.
\<close>

theorem signup_keeps_createdAt:
  "(case signupUser (exReg ''S'') ''ann@example.org'' ''111'' ''T2'' ''222222'' 300000 1 exState of
      (r, s) \<Rightarrow> (r, map createdAt (tempUsers s),
                 map_option fst (verifyOTPUser 5 (exReg ''S'') ''T2'' ''222222'' 602000 1 ''S1'' s)))
   = (Inr ''T2'', [1000], Some (Inl Expired))"
  by code_simp

subsection \<open>KYC level 1: the full name\<close>

lemma find_uid: "find (\<lambda>u. uid u = i) db = Some u \<Longrightarrow> uid u = i \<and> u \<in> set db"
  by (induction db) (auto split: if_splits)

lemma findById_saveUser:
  "findById i db = Some u \<Longrightarrow> uid d = i \<Longrightarrow> findById i (saveUser d db) = Some d"
  unfolding findById_def by (induction db) (auto split: if_splits)

lemma nameTokens_nonempty: "nameTokens fullName = t # ts \<Longrightarrow> fullName \<noteq> []"
  by (auto simp: nameTokens_def)

text \<open>
  C10. When the full name has three or more non-empty space-separated tokens and the other
  inputs are in order (country given, the three images given and stored, the user found),
  \<open>submitKYC\<close> succeeds and stores the first token as first name and the second as
  last name; the other tokens appear nowhere. With exactly one non-empty token it fails
  with the validation error, whatever the other inputs are.
\<close>

theorem submitKYC_uses_first_two_tokens:
  "(nameTokens fullName = ta # tb # tc # rest \<and> country' \<noteq> [] \<and> findById i (users st) = Some u
      \<and> upload frontFile ''kyc/front'' = Some fu \<and> upload backFile ''kyc/back'' = Some bu
      \<and> upload selfieFile ''kyc/selfie'' = Some su
    \<longrightarrow> (case submitKYC (Some i) fullName country' gender' (Some frontFile) (Some backFile) (Some selfieFile) upload st of
          (r, st') \<Rightarrow> r = Inr () \<and>
            findById i (users st') =
              Some (u\<lparr>firstName := ta, lastName := tb, country := country', gender := gender',
                      cnicImages := Some (fu, bu), selfieImage := Some su, kycLevel := 1\<rparr>)))
   \<and> (nameTokens single = [t]
    \<longrightarrow> submitKYC userId single countryB genderB frontImage backImage selfieImage' uploadB stB
          = (Inl ValidationError, stB))"
proof (intro conjI impI)
  assume a: "nameTokens fullName = ta # tb # tc # rest \<and> country' \<noteq> [] \<and> findById i (users st) = Some u
      \<and> upload frontFile ''kyc/front'' = Some fu \<and> upload backFile ''kyc/back'' = Some bu
      \<and> upload selfieFile ''kyc/selfie'' = Some su"
  then have ne: "fullName \<noteq> []" using nameTokens_nonempty by blast
  have ui: "uid u = i" using a find_uid[of i "users st" u] by (simp add: findById_def)
  show "case submitKYC (Some i) fullName country' gender' (Some frontFile) (Some backFile) (Some selfieFile) upload st of
          (r, st') \<Rightarrow> r = Inr () \<and>
            findById i (users st') =
              Some (u\<lparr>firstName := ta, lastName := tb, country := country', gender := gender',
                      cnicImages := Some (fu, bu), selfieImage := Some su, kycLevel := 1\<rparr>)"
    using a ne ui by (simp add: submitKYC_def findById_saveUser)
next
  assume "nameTokens single = [t]"
  then show "submitKYC userId single countryB genderB frontImage backImage selfieImage' uploadB stB
          = (Inl ValidationError, stB)"
    by (simp add: submitKYC_def split: option.splits)
qed

theorem submitKYC_uses_first_two_tokens_witness:
  "(case submitKYC (Some 0) ''Ann Mary Lee'' ''PK'' ''f'' (Some ''f.png'') (Some ''b.png'') (Some ''s.png'')
           exUpload exState of
     (r, st') \<Rightarrow> r = Inr () \<and> map_option firstName (findById 0 (users st')) = Some ''Ann''
        \<and> map_option lastName (findById 0 (users st')) = Some ''Mary'')
   \<and> fst (submitKYC (Some 0) ''Ann'' ''PK'' ''f'' (Some ''f.png'') (Some ''b.png'') (Some ''s.png'')
           exUpload exState) = Inl ValidationError"
proof -
  have tok: "nameTokens ''Ann Mary Lee'' = ''Ann'' # ''Mary'' # ''Lee'' # []" by code_simp
  have one: "nameTokens ''Ann'' = [''Ann'']" by code_simp
  have f: "findById 0 (users exState) = Some (exUser 0 ''S'' ''root'' [] 0)" by code_simp
  have up: "exUpload ''f.png'' ''kyc/front'' = Some ''kyc/front/f.png''"
    "exUpload ''b.png'' ''kyc/back'' = Some ''kyc/back/b.png''"
    "exUpload ''s.png'' ''kyc/selfie'' = Some ''kyc/selfie/s.png''"
    by (simp_all add: exUpload_def)
  note inst = submitKYC_uses_first_two_tokens[where fullName = "''Ann Mary Lee''" and ta = "''Ann''"
      and tb = "''Mary''" and tc = "''Lee''" and rest = "[]" and country' = "''PK''" and i = "0::nat"
      and st = exState and u = "exUser 0 ''S'' ''root'' [] 0" and upload = exUpload
      and frontFile = "''f.png''" and backFile = "''b.png''" and selfieFile = "''s.png''"
      and fu = "''kyc/front/f.png''" and bu = "''kyc/back/b.png''" and su = "''kyc/selfie/s.png''"
      and gender' = "''f''" and single = "''Ann''" and t = "''Ann''" and userId = "Some 0"
      and countryB = "''PK''" and genderB = "''f''" and frontImage = "Some ''f.png''"
      and backImage = "Some ''b.png''" and selfieImage' = "Some ''s.png''" and uploadB = exUpload
      and stB = exState]
  show ?thesis using inst tok one f up by (auto split: prod.splits)
qed

subsection \<open>Consuming a session\<close>

lemma find_Some_set: "find P xs = Some x \<Longrightarrow> x \<in> set xs \<and> P x"
  by (induction xs) (auto split: if_splits)

lemma find_None_iff_set: "find P xs = None \<longleftrightarrow> (\<forall>x \<in> set xs. \<not> P x)"
  by (induction xs) auto

lemma deleteTemp_removes_session:
  "distinct (map tid ts) \<Longrightarrow> distinct (map tempId ts) \<Longrightarrow> find (\<lambda>t. tempId t = x) ts = Some t
   \<Longrightarrow> find (\<lambda>t. tempId t = x) (deleteTemp (tid t) ts) = None"
proof (induction ts)
  case Nil
  then show ?case by simp
next
  case (Cons a ts)
  show ?case
  proof (cases "tempId a = x")
    case True
    with Cons.prems have "t = a" by simp
    moreover have "\<forall>y \<in> set ts. tempId y \<noteq> x" using Cons.prems(2) True by (force simp: image_iff)
    ultimately show ?thesis by (simp add: find_None_iff_set)
  next
    case False
    with Cons.prems have f: "find (\<lambda>t. tempId t = x) ts = Some t" by simp
    then have "t \<in> set ts" using find_Some_set by fast
    then have "tid a \<noteq> tid t" using Cons.prems(1) by auto
    then show ?thesis using Cons False f by simp
  qed
qed

subsection \<open>Beginning a session\<close>

lemma filter_Cons_find: "filter P xs = x # ys \<Longrightarrow> find P xs = Some x"
  by (induction xs) (auto split: if_splits)

lemma filter_Nil_find: "filter P xs = [] \<Longrightarrow> find P xs = None"
  by (induction xs) (auto split: if_splits)

lemma saveTemp_map:
  "distinct (map tid ts) \<Longrightarrow> saveTemp d ts = map (\<lambda>t. if tid t = tid d then d else t) ts"
proof (induction ts)
  case Nil
  then show ?case by simp
next
  case (Cons a ts)
  show ?case
  proof (cases "tid a = tid d")
    case True
    then have "\<forall>t \<in> set ts. tid t \<noteq> tid d" using Cons.prems by (force simp: image_iff)
    then have "map (\<lambda>t. if tid t = tid d then d else t) ts = ts" by (induction ts) auto
    then show ?thesis using True by simp
  next
    case False
    then show ?thesis using Cons by simp
  qed
qed

lemma filter_map_replace:
  assumes "\<forall>t \<in> set ts. P (g t) = P t"
  shows "filter P (map g ts) = map g (filter P ts)"
  using assms by (induction ts) auto

lemma same_tid_same_doc:
  "distinct (map tid ts) \<Longrightarrow> a \<in> set ts \<Longrightarrow> b \<in> set ts \<Longrightarrow> tid a = tid b \<Longrightarrow> a = b"
  by (induction ts) (auto simp: image_iff)

text \<open>
  C7, amended. With every field present and a fresh \<open>tempId\<close>: when exactly one session
  has the email, a second signup changes that session in place, giving it the new
  \<open>tempId\<close> and the new OTP and leaving its identity, email, phone number and
  \<open>createdAt\<close> as they were; the email still has exactly one session, no session is
  added, no session answers to the old \<open>tempId\<close>, and the new OTP is mailed. When no
  session has the email (and none has the phone number), a new session is inserted with
  \<open>createdAt\<close> the current time.
\<close>

theorem signupUser_overwrites_in_place:
  assumes "regFirstName reg \<noteq> []" and "regLastName reg \<noteq> []" and "e \<noteq> []" and "p \<noteq> []"
    and "regPassword reg \<noteq> []" and "regSponsorBy reg \<noteq> []" and "regGender reg \<noteq> []"
    and "distinct (map tid (tempUsers st))" and "distinct (map tempId (tempUsers st))"
    and "\<forall>t \<in> set (tempUsers st). tempId t \<noteq> newTempId"
  shows
    "(\<forall>old. filter (\<lambda>t. tEmail t = e) (tempUsers st) = [old] \<longrightarrow>
        (case signupUser reg e p newTempId newOtp now newTid st of
           (r, st') \<Rightarrow>
             r = Inr newTempId
             \<and> filter (\<lambda>t. tEmail t = e) (tempUsers st') = [old\<lparr>tempId := newTempId, otp := newOtp\<rparr>]
             \<and> length (tempUsers st') = length (tempUsers st)
             \<and> find (\<lambda>t. tempId t = tempId old) (tempUsers st') = None
             \<and> outbox st' = outbox st @ [\<lparr>mailTo = e, mailOtp = newOtp\<rparr>]))
     \<and> (filter (\<lambda>t. tEmail t = e) (tempUsers st) = []
          \<and> (\<forall>t \<in> set (tempUsers st). tPhoneNumber t \<noteq> p) \<longrightarrow>
        signupUser reg e p newTempId newOtp now newTid st =
          (Inr newTempId,
           st\<lparr>tempUsers := tempUsers st @
                 [\<lparr>tid = newTid, tEmail = e, tPhoneNumber = p, tempId = newTempId,
                   otp = newOtp, createdAt = now\<rparr>],
              outbox := outbox st @ [\<lparr>mailTo = e, mailOtp = newOtp\<rparr>]\<rparr>))"
proof (intro conjI allI impI)
  fix old
  assume one: "filter (\<lambda>t. tEmail t = e) (tempUsers st) = [old]"
  let ?ts = "tempUsers st"
  let ?new = "old\<lparr>tempId := newTempId, otp := newOtp\<rparr>"
  let ?g = "\<lambda>t. if tid t = tid ?new then ?new else t"
  have f: "find (\<lambda>t. tEmail t = e) ?ts = Some old" using one by (rule filter_Cons_find)
  have "old \<in> set (filter (\<lambda>t. tEmail t = e) ?ts)" using one by simp
  then have mem: "old \<in> set ?ts" and em: "tEmail old = e" by auto
  have same: "\<And>t. t \<in> set ?ts \<Longrightarrow> tid t = tid old \<Longrightarrow> t = old"
    using same_tid_same_doc[OF assms(8) _ mem] by blast
  have sv: "saveTemp ?new ?ts = map ?g ?ts" using saveTemp_map[OF assms(8)] by simp
  have "filter (\<lambda>t. tEmail t = e) (map ?g ?ts) = map ?g (filter (\<lambda>t. tEmail t = e) ?ts)"
    by (rule filter_map_replace) (use same em in auto)
  then have fl: "filter (\<lambda>t. tEmail t = e) (saveTemp ?new ?ts) = [?new]"
    using sv one by simp
  have "\<forall>t \<in> set (map ?g ?ts). tempId t \<noteq> tempId old"
  proof
    fix t assume "t \<in> set (map ?g ?ts)"
    then obtain t0 where t0: "t0 \<in> set ?ts" and t: "t = ?g t0" by auto
    show "tempId t \<noteq> tempId old"
    proof (cases "tid t0 = tid old")
      case True
      then show ?thesis using t assms(10) mem by auto
    next
      case False
      then have "t0 \<noteq> old" by auto
      then have "tempId t0 \<noteq> tempId old"
        using assms(9) t0 mem by (metis distinct_map inj_onD)
      then show ?thesis using t False by simp
    qed
  qed
  then have gone: "find (\<lambda>t. tempId t = tempId old) (saveTemp ?new ?ts) = None"
    using sv by (simp add: find_None_iff_set del: set_map)
  have len: "length (saveTemp ?new ?ts) = length ?ts" using sv by simp
  show "case signupUser reg e p newTempId newOtp now newTid st of
           (r, st') \<Rightarrow>
             r = Inr newTempId
             \<and> filter (\<lambda>t. tEmail t = e) (tempUsers st') = [old\<lparr>tempId := newTempId, otp := newOtp\<rparr>]
             \<and> length (tempUsers st') = length (tempUsers st)
             \<and> find (\<lambda>t. tempId t = tempId old) (tempUsers st') = None
             \<and> outbox st' = outbox st @ [\<lparr>mailTo = e, mailOtp = newOtp\<rparr>]"
    using assms(1-7,10) f fl gone len by (simp add: signupUser_def)
next
  assume a: "filter (\<lambda>t. tEmail t = e) (tempUsers st) = [] \<and> (\<forall>t \<in> set (tempUsers st). tPhoneNumber t \<noteq> p)"
  then have "find (\<lambda>t. tEmail t = e) (tempUsers st) = None" by (simp add: filter_Nil_find)
  then show "signupUser reg e p newTempId newOtp now newTid st =
          (Inr newTempId,
           st\<lparr>tempUsers := tempUsers st @
                 [\<lparr>tid = newTid, tEmail = e, tPhoneNumber = p, tempId = newTempId,
                   otp = newOtp, createdAt = now\<rparr>],
              outbox := outbox st @ [\<lparr>mailTo = e, mailOtp = newOtp\<rparr>]\<rparr>)"
    using assms(1-7,10) a by (simp add: signupUser_def)
qed

theorem signupUser_overwrites_in_place_witness:
  "(case signupUser (exReg ''S'') ''ann@example.org'' ''111'' ''T2'' ''222222'' 300000 1 exState of
      (r, st') \<Rightarrow> r = Inr ''T2''
         \<and> filter (\<lambda>t. tEmail t = ''ann@example.org'') (tempUsers st')
            = [exSession\<lparr>tempId := ''T2'', otp := ''222222''\<rparr>]
         \<and> find (\<lambda>t. tempId t = ''T1'') (tempUsers st') = None)
   \<and> tempUsers (snd (signupUser (exReg ''S'') ''bob@example.org'' ''222'' ''T2'' ''222222'' 300000 1 exState))
      = [exSession, \<lparr>tid = 1, tEmail = ''bob@example.org'', tPhoneNumber = ''222'', tempId = ''T2'',
                     otp = ''222222'', createdAt = 300000\<rparr>]"
proof -
  have reg: "regFirstName (exReg ''S'') \<noteq> []" "regLastName (exReg ''S'') \<noteq> []"
    by (simp_all add: exReg_def)
  have reg2: "regPassword (exReg ''S'') \<noteq> []" "regSponsorBy (exReg ''S'') \<noteq> []" "regGender (exReg ''S'') \<noteq> []"
    by (simp_all add: exReg_def)
  have ne: "''ann@example.org'' \<noteq> []" "''111'' \<noteq> []" "''bob@example.org'' \<noteq> []" "''222'' \<noteq> []"
    by simp_all
  have d: "distinct (map tid (tempUsers exState))" "distinct (map tempId (tempUsers exState))"
    "\<forall>t \<in> set (tempUsers exState). tempId t \<noteq> ''T2''"
    by (simp_all add: exState_def exSession_def)
  have one: "filter (\<lambda>t. tEmail t = ''ann@example.org'') (tempUsers exState) = [exSession]"
    by (simp add: exState_def exSession_def)
  have none: "filter (\<lambda>t. tEmail t = ''bob@example.org'') (tempUsers exState) = []
      \<and> (\<forall>t \<in> set (tempUsers exState). tPhoneNumber t \<noteq> ''222'')"
    by (simp add: exState_def exSession_def)
  have t1: "tempId exSession = ''T1''" by (simp add: exSession_def)
  have a: "case signupUser (exReg ''S'') ''ann@example.org'' ''111'' ''T2'' ''222222'' 300000 1 exState of
      (r, st') \<Rightarrow> r = Inr ''T2''
         \<and> filter (\<lambda>t. tEmail t = ''ann@example.org'') (tempUsers st')
            = [exSession\<lparr>tempId := ''T2'', otp := ''222222''\<rparr>]
         \<and> find (\<lambda>t. tempId t = ''T1'') (tempUsers st') = None"
    using signupUser_overwrites_in_place[OF reg ne(1) ne(2) reg2 d, of "''222222''" 300000 1] one t1
    by (auto split: prod.splits)
  have b: "tempUsers (snd (signupUser (exReg ''S'') ''bob@example.org'' ''222'' ''T2'' ''222222'' 300000 1 exState))
      = [exSession, \<lparr>tid = 1, tEmail = ''bob@example.org'', tPhoneNumber = ''222'', tempId = ''T2'',
                     otp = ''222222'', createdAt = 300000\<rparr>]"
    using signupUser_overwrites_in_place[OF reg ne(3) ne(4) reg2 d, of "''222222''" 300000 1] none
    by (simp add: exState_def)
  show ?thesis using a b by blast
qed

subsection \<open>The rank bound\<close>

lemma evalNode_unfold:
  assumes "promoteLoop subReferrals 2 (filter (\<lambda>u. sponsorBy u = sponsorId user) db) db 0 = (db2, n2)"
    and "promoteLoop (subReferralsAt 2) 3
           (filter (\<lambda>u. level u = 2 \<and> sponsorBy u = sponsorId user) db2) db2 0 = (db3, n3)"
    and "promoteLoop (subReferralsAt 3) 4
           (filter (\<lambda>u. level u = 3 \<and> sponsorBy u = sponsorId user) db3) db3 0 = (db4, n4)"
  shows "evalNode user db =
           (if finalLevel user n2 n3 n4 = level user then db4
            else saveLevel (user\<lparr>level := finalLevel user n2 n3 n4\<rparr>) db4)"
  unfolding evalNode_def finalLevel_def Let_def assms prod.case
  by auto

lemma finalLevel_le4: "finalLevel user n2 n3 n4 \<le> 4"
  by (simp add: finalLevel_def Let_def)

lemma saveLevel_bounded:
  "\<forall>u \<in> set db. level u \<le> b \<Longrightarrow> level d \<le> b \<Longrightarrow> \<forall>u \<in> set (saveLevel d db). level u \<le> b"
  by (induction db) auto

lemma promoteLoop_bounded:
  "k \<le> b \<Longrightarrow> \<forall>u \<in> set db. level u \<le> b
   \<Longrightarrow> \<forall>u \<in> set (fst (promoteLoop q k refs db n)). level u \<le> b"
proof (induction refs arbitrary: db n)
  case Nil
  then show ?case by simp
next
  case (Cons r refs)
  have "\<forall>u \<in> set (saveLevel (r\<lparr>level := k\<rparr>) db). level u \<le> b"
    using saveLevel_bounded[of db b "r\<lparr>level := k\<rparr>"] Cons.prems by simp
  then show ?case using Cons by simp
qed


lemma evalNode_bounded:
  assumes "\<forall>u \<in> set db. level u \<le> 4"
  shows "\<forall>u \<in> set (evalNode user db). level u \<le> 4"
proof -
  obtain db2 n2 where p2: "promoteLoop subReferrals 2
      (filter (\<lambda>u. sponsorBy u = sponsorId user) db) db 0 = (db2, n2)" by (meson surj_pair)
  obtain db3 n3 where p3: "promoteLoop (subReferralsAt 2) 3
      (filter (\<lambda>u. level u = 2 \<and> sponsorBy u = sponsorId user) db2) db2 0 = (db3, n3)"
    by (meson surj_pair)
  obtain db4 n4 where p4: "promoteLoop (subReferralsAt 3) 4
      (filter (\<lambda>u. level u = 3 \<and> sponsorBy u = sponsorId user) db3) db3 0 = (db4, n4)"
    by (meson surj_pair)
  have b2: "\<forall>u \<in> set db2. level u \<le> 4"
    using promoteLoop_bounded[of 2 4 db subReferrals "filter (\<lambda>u. sponsorBy u = sponsorId user) db" 0]
      assms by (simp add: p2)
  have b3: "\<forall>u \<in> set db3. level u \<le> 4"
    using promoteLoop_bounded[of 3 4 db2 "subReferralsAt 2"
        "filter (\<lambda>u. level u = 2 \<and> sponsorBy u = sponsorId user) db2" 0] b2 by (simp add: p3)
  have b4: "\<forall>u \<in> set db4. level u \<le> 4"
    using promoteLoop_bounded[of 4 4 db3 "subReferralsAt 3"
        "filter (\<lambda>u. level u = 3 \<and> sponsorBy u = sponsorId user) db3" 0] b3 by (simp add: p4)
  have "\<forall>u \<in> set (saveLevel (user\<lparr>level := finalLevel user n2 n3 n4\<rparr>) db4). level u \<le> 4"
    using saveLevel_bounded[OF b4, of "user\<lparr>level := finalLevel user n2 n3 n4\<rparr>"]
    by (simp add: finalLevel_le4)
  then show ?thesis using b4 by (simp add: evalNode_unfold[OF p2 p3 p4])
qed

lemma updateSponsorLevels_bounded:
  "updateSponsorLevels fuel i db = Some db' \<Longrightarrow> \<forall>u \<in> set db. level u \<le> 4
   \<Longrightarrow> \<forall>u \<in> set db'. level u \<le> 4"
proof (induction fuel arbitrary: i db)
  case 0
  then show ?case by simp
next
  case (Suc fuel)
  show ?case
  proof (cases "findById i db")
    case None
    then show ?thesis using Suc.prems by simp
  next
    case (Some user)
    have b: "\<forall>u \<in> set (evalNode user db). level u \<le> 4"
      using evalNode_bounded Suc.prems(2) by blast
    show ?thesis
    proof (cases "sponsorBy user \<noteq> ''root''")
      case False
      then show ?thesis using Suc.prems(1) Some b by (simp add: Let_def)
    next
      case True
      show ?thesis
      proof (cases "find (\<lambda>u. sponsorId u = sponsorBy user) (evalNode user db)")
        case None
        then show ?thesis using Suc.prems(1) Some True b by (simp add: Let_def)
      next
        case (Some parentSponsor)
        then have "updateSponsorLevels fuel (uid parentSponsor) (evalNode user db) = Some db'"
          using Suc.prems(1) \<open>findById i db = Some user\<close> True by (simp add: Let_def)
        then show ?thesis using Suc.IH b by blast
      qed
    qed
  qed
qed

lemma signupUser_users: "users (snd (signupUser reg e p t c now i st)) = users st"
  by (simp add: signupUser_def split: option.splits)

lemma level_createUser: "level (createUser reg e p i s) = 0"
  by (simp add: createUser_def)

lemma verifyOTPUser_users:
  assumes "verifyOTPUser fuel reg t c now i s st = Some (r, st')"
  shows "users st' = users st
         \<or> (\<exists>nu. level nu = 0 \<and> (users st' = users st @ [nu]
                \<or> (\<exists>j. updateSponsorLevels fuel j (users st @ [nu]) = Some (users st'))))"
proof (cases "find (\<lambda>x. tempId x = t) (tempUsers st)")
  case None
  then show ?thesis using assms by (auto simp: verifyOTPUser_def split: if_splits)
next
  case (Some x)
  let ?nu = "createUser reg (tEmail x) (tPhoneNumber x) i s"
  have "users st' = users st \<or> users st' = users st @ [?nu]
        \<or> (\<exists>j. updateSponsorLevels fuel j (users st @ [?nu]) = Some (users st'))"
    using assms Some
    by (auto simp: verifyOTPUser_def Let_def split: if_splits option.splits)
  then show ?thesis using level_createUser by blast
qed

lemma verifyOTPUser_bounded:
  assumes "verifyOTPUser fuel reg t c now i s st = Some (r, st')"
    and "\<forall>u \<in> set (users st). level u \<le> 4"
  shows "\<forall>u \<in> set (users st'). level u \<le> 4"
proof -
  have db: "\<And>nu. level nu = 0 \<Longrightarrow> \<forall>u \<in> set (users st @ [nu]). level u \<le> 4"
    using assms(2) by simp
  show ?thesis
    using verifyOTPUser_users[OF assms(1)] assms(2) db updateSponsorLevels_bounded by metis
qed

lemma applyOp_bounded:
  assumes "applyOp fuel x st = Some st'" and "\<forall>u \<in> set (users st). level u \<le> 4"
  shows "\<forall>u \<in> set (users st'). level u \<le> 4"
proof (cases x)
  case (Signup reg e p t c now i)
  then show ?thesis using assms signupUser_users[of reg e p t c now i st] by auto
next
  case (Verify reg t c now i s)
  then obtain r where "verifyOTPUser fuel reg t c now i s st = Some (r, st')"
    using assms(1) by auto
  then show ?thesis using verifyOTPUser_bounded assms(2) by blast
next
  case (Level i)
  then obtain db where "updateSponsorLevels fuel i (users st) = Some db" and "st' = st\<lparr>users := db\<rparr>"
    using assms(1) by auto
  then show ?thesis using updateSponsorLevels_bounded assms(2) by fastforce
qed

text \<open>
  C5. Starting from a store in which no rank exceeds 4, after any sequence of signups,
  verifications (admissions) and engine runs that returns, no rank exceeds 4; and no
  single node evaluation of the engine, on any store within the bound, leads out of it.
\<close>

theorem level_never_exceeds_4:
  assumes "\<forall>u \<in> set (users st). level u \<le> 4"
  shows "(\<forall>st'. runOps fuel ops st = Some st' \<longrightarrow> (\<forall>u \<in> set (users st'). level u \<le> 4))
         \<and> (\<forall>u \<in> set (evalNode user (users st)). level u \<le> 4)"
proof
  show "\<forall>st'. runOps fuel ops st = Some st' \<longrightarrow> (\<forall>u \<in> set (users st'). level u \<le> 4)"
    using assms
  proof (induction ops arbitrary: st)
    case Nil
    then show ?case by simp
  next
    case (Cons x xs)
    show ?case
    proof (intro allI impI)
      fix st'
      assume r: "runOps fuel (x # xs) st = Some st'"
      then obtain st1 where a: "applyOp fuel x st = Some st1" and b: "runOps fuel xs st1 = Some st'"
        by (auto split: option.splits)
      have "\<forall>u \<in> set (users st1). level u \<le> 4" using applyOp_bounded[OF a] Cons.prems by blast
      then show "\<forall>u \<in> set (users st'). level u \<le> 4" using Cons.IH b by blast
    qed
  qed
  show "\<forall>u \<in> set (evalNode user (users st)). level u \<le> 4"
    using evalNode_bounded assms by blast
qed

theorem level_never_exceeds_4_witness:
  "\<exists>st'. runOps 3 [Signup (exReg ''PA'') ''bob@example.org'' ''222'' ''T2'' ''222222'' 3000 1,
                    Verify (exReg ''PA'') ''T2'' ''222222'' 4000 13 ''PAD'',
                    Level 1, Level 0]
            \<lparr>users = exDeep, tempUsers = [exSession], outbox = []\<rparr> = Some st'
         \<and> length (users st') = 14 \<and> (\<forall>u \<in> set (users st'). level u \<le> 4)"
proof -
  let ?ops = "[Signup (exReg ''PA'') ''bob@example.org'' ''222'' ''T2'' ''222222'' 3000 1,
               Verify (exReg ''PA'') ''T2'' ''222222'' 4000 13 ''PAD'', Level 1, Level 0]"
  let ?st = "\<lparr>users = exDeep, tempUsers = [exSession], outbox = []\<rparr>"
  have "map_option (\<lambda>s. length (users s)) (runOps 3 ?ops ?st) = Some 14" by code_simp
  then obtain st' where r: "runOps 3 ?ops ?st = Some st'" and l: "length (users st') = 14" by auto
  have pre: "\<forall>u \<in> set (users ?st). level u \<le> 4" by (simp add: exDeep_def exUser_def)
  show ?thesis using level_never_exceeds_4[OF pre, of 3 ?ops] r l by blast
qed

subsection \<open>The first check of the engine\<close>

lemma promoteLoop_nothing:
  "\<forall>r \<in> set refs. \<not> (3 \<le> length (filter (q r) db) \<and> level r < k)
   \<Longrightarrow> promoteLoop q k refs db n = (db, n)"
  by (induction refs) auto

lemma subReferralsAt_le:
  "length (filter (subReferralsAt l c) db) \<le> length (filter (subReferrals c) db)"
  by (induction db) (auto simp: subReferralsAt_def subReferrals_def)

lemma findById_saveLevel:
  "findById i db = Some u \<Longrightarrow> uid d = i \<Longrightarrow> findById i (saveLevel d db) = Some (u\<lparr>level := level d\<rparr>)"
  unfolding findById_def by (induction db) (auto split: if_splits)

text \<open>
  C1, amended. When the engine evaluates a node at rank 0 or 1 whose children each have
  fewer than three referrals of their own, only the first check can fire: a node at rank
  0 ends the evaluation at rank 1 exactly when its stored \<open>sponsorTree\<close> has at least
  three entries, whatever the ranks of the children. With two entries a node at rank 0
  stays at rank 0, with three it reaches rank 1, and a node at rank 1 stays at rank 1
  however many entries it has. No other document changes.
\<close>

theorem first_check_counts_sponsorTree:
  assumes "findById i db = Some n" and "level n \<le> 1"
    and "\<forall>c \<in> set db. sponsorBy c = sponsorId n \<longrightarrow> length (filter (subReferrals c) db) < 3"
  shows "evalNode n db =
           (if 3 \<le> length (sponsorTree n) \<and> level n = 0 then saveLevel (n\<lparr>level := 1\<rparr>) db else db)
         \<and> findById i (evalNode n db) =
             Some (n\<lparr>level := (if 3 \<le> length (sponsorTree n) then 1 else level n)\<rparr>)"
proof -
  have c3: "\<And>l c. c \<in> set db \<Longrightarrow> sponsorBy c = sponsorId n
            \<Longrightarrow> length (filter (subReferralsAt l c) db) < 3"
    using assms(3) subReferralsAt_le le_less_trans by blast
  have p2: "promoteLoop subReferrals 2 (filter (\<lambda>u. sponsorBy u = sponsorId n) db) db 0 = (db, 0)"
    by (rule promoteLoop_nothing) (use assms(3) in auto)
  have p3: "promoteLoop (subReferralsAt 2) 3
              (filter (\<lambda>u. level u = 2 \<and> sponsorBy u = sponsorId n) db) db 0 = (db, 0)"
    by (rule promoteLoop_nothing) (use c3 in \<open>auto simp: not_le\<close>)
  have p4: "promoteLoop (subReferralsAt 3) 4
              (filter (\<lambda>u. level u = 3 \<and> sponsorBy u = sponsorId n) db) db 0 = (db, 0)"
    by (rule promoteLoop_nothing) (use c3 in \<open>auto simp: not_le\<close>)
  have fl: "finalLevel n 0 0 0 = (if 3 \<le> length (sponsorTree n) \<and> level n = 0 then 1 else level n)"
    using assms(2) by (auto simp: finalLevel_def)
  have e: "evalNode n db =
           (if 3 \<le> length (sponsorTree n) \<and> level n = 0 then saveLevel (n\<lparr>level := 1\<rparr>) db else db)"
    using evalNode_unfold[OF p2 p3 p4] by (auto simp: fl)
  have u: "uid n = i" using assms(1) find_uid[of i db n] by (simp add: findById_def)
  have "findById i (evalNode n db) =
             Some (n\<lparr>level := (if 3 \<le> length (sponsorTree n) then 1 else level n)\<rparr>)"
  proof (cases "3 \<le> length (sponsorTree n) \<and> level n = 0")
    case True
    then show ?thesis using e findById_saveLevel[OF assms(1), of "n\<lparr>level := 1\<rparr>"] u by simp
  next
    case False
    then have "(if 3 \<le> length (sponsorTree n) then 1 else level n) = level n"
      using assms(2) by auto
    then show ?thesis using e False assms(1) by simp
  qed
  then show ?thesis using e by blast
qed

theorem first_check_counts_sponsorTree_witness:
  "map_option level (findById 0 exPair) = Some 0
   \<and> map_option level (findById 0 (evalNode (exUser 0 ''P'' ''root'' [1, 2] 0) exPair)) = Some 0
   \<and> map_option level (findById 0 exTrio) = Some 0
   \<and> map_option level (findById 0 (evalNode (exUser 0 ''P'' ''root'' [1, 2, 3] 0) exTrio)) = Some 1
   \<and> map_option level (findById 0 exFour) = Some 1
   \<and> map_option level (findById 0 (evalNode (exUser 0 ''P'' ''root'' [1, 2, 3, 4] 1) exFour)) = Some 1"
proof -
  have f: "findById 0 exPair = Some (exUser 0 ''P'' ''root'' [1, 2] 0)"
    "findById 0 exTrio = Some (exUser 0 ''P'' ''root'' [1, 2, 3] 0)"
    "findById 0 exFour = Some (exUser 0 ''P'' ''root'' [1, 2, 3, 4] 1)"
    by (simp_all add: findById_def exPair_def exTrio_def exFour_def exUser_def)
  have l: "level (exUser 0 ''P'' ''root'' [1, 2] 0) \<le> 1" "level (exUser 0 ''P'' ''root'' [1, 2, 3] 0) \<le> 1"
    "level (exUser 0 ''P'' ''root'' [1, 2, 3, 4] 1) \<le> 1"
    by (simp_all add: exUser_def)
  have c: "\<forall>c \<in> set exPair. sponsorBy c = sponsorId (exUser 0 ''P'' ''root'' [1, 2] 0)
              \<longrightarrow> length (filter (subReferrals c) exPair) < 3"
    "\<forall>c \<in> set exTrio. sponsorBy c = sponsorId (exUser 0 ''P'' ''root'' [1, 2, 3] 0)
              \<longrightarrow> length (filter (subReferrals c) exTrio) < 3"
    "\<forall>c \<in> set exFour. sponsorBy c = sponsorId (exUser 0 ''P'' ''root'' [1, 2, 3, 4] 1)
              \<longrightarrow> length (filter (subReferrals c) exFour) < 3"
    by (simp_all add: exPair_def exTrio_def exFour_def exUser_def subReferrals_def)
  have a: "map_option level (findById 0 (evalNode (exUser 0 ''P'' ''root'' [1, 2] 0) exPair)) = Some 0"
    using first_check_counts_sponsorTree[OF f(1) l(1) c(1), THEN conjunct2] by (simp add: exUser_def)
  have b: "map_option level (findById 0 (evalNode (exUser 0 ''P'' ''root'' [1, 2, 3] 0) exTrio)) = Some 1"
    using first_check_counts_sponsorTree[OF f(2) l(2) c(2), THEN conjunct2] by (simp add: exUser_def)
  have d: "map_option level (findById 0 (evalNode (exUser 0 ''P'' ''root'' [1, 2, 3, 4] 1) exFour)) = Some 1"
    using first_check_counts_sponsorTree[OF f(3) l(3) c(3), THEN conjunct2] by (simp add: exUser_def)
  have g: "map_option level (findById 0 exPair) = Some 0" "map_option level (findById 0 exTrio) = Some 0"
    "map_option level (findById 0 exFour) = Some 1"
    using f by (simp_all add: exUser_def)
  show ?thesis using a b d g by blast
qed

subsection \<open>Ranks only grow\<close>

lemma grows_refl: "level u \<le> 4 \<Longrightarrow> grows u u"
  by (simp add: grows_def)

lemma grows_trans: "grows u v \<Longrightarrow> grows v w \<Longrightarrow> grows u w"
  by (simp add: grows_def)

lemma grows_fields:
  assumes "grows u v"
  shows "uid v = uid u" and "sponsorId v = sponsorId u" and "sponsorBy v = sponsorBy u"
    and "sponsorTree v = sponsorTree u"
proof -
  have e: "v\<lparr>level := 0\<rparr> = u\<lparr>level := 0\<rparr>" using assms by (simp add: grows_def)
  have "uid (v\<lparr>level := 0\<rparr>) = uid (u\<lparr>level := 0\<rparr>)" by (simp only: e)
  then show "uid v = uid u" by simp
  have "sponsorId (v\<lparr>level := 0\<rparr>) = sponsorId (u\<lparr>level := 0\<rparr>)" by (simp only: e)
  then show "sponsorId v = sponsorId u" by simp
  have "sponsorBy (v\<lparr>level := 0\<rparr>) = sponsorBy (u\<lparr>level := 0\<rparr>)" by (simp only: e)
  then show "sponsorBy v = sponsorBy u" by simp
  have "sponsorTree (v\<lparr>level := 0\<rparr>) = sponsorTree (u\<lparr>level := 0\<rparr>)" by (simp only: e)
  then show "sponsorTree v = sponsorTree u" by simp
qed

lemma grows_list_refl: "\<forall>u \<in> set db. level u \<le> 4 \<Longrightarrow> list_all2 grows db db"
  by (simp add: list_all2_same grows_refl)

lemma grows_list_trans:
  "list_all2 grows a b \<Longrightarrow> list_all2 grows b c \<Longrightarrow> list_all2 grows a c"
  using list_all2_trans[of grows grows grows a b c] grows_trans by blast

lemma grows_list_uids: "list_all2 grows a b \<Longrightarrow> map uid b = map uid a"
  by (induction rule: list_all2_induct) (auto simp: grows_fields)

lemma grows_list_bounded: "list_all2 grows a b \<Longrightarrow> \<forall>u \<in> set b. level u \<le> 4"
  by (induction rule: list_all2_induct) (auto simp: grows_def)

lemma saveLevel_grows:
  "list_all2 grows db0 db \<Longrightarrow> \<forall>u0 \<in> set db0. uid u0 = uid d \<longrightarrow> level u0 \<le> level d
   \<Longrightarrow> level d \<le> 4 \<Longrightarrow> list_all2 grows db0 (saveLevel d db)"
proof (induction rule: list_all2_induct)
  case Nil
  then show ?case by simp
next
  case (Cons u0 db0 u db)
  have i: "uid u = uid u0" using Cons.hyps(1) by (simp add: grows_fields)
  show ?case
  proof (cases "uid u = uid d")
    case True
    have "grows u0 (u\<lparr>level := level d\<rparr>)"
      using Cons.hyps(1) Cons.prems True i by (simp add: grows_def)
    then show ?thesis using True Cons.hyps(2) by simp
  next
    case False
    then show ?thesis using Cons by simp
  qed
qed

lemma promoteLoop_grows:
  "list_all2 grows db0 db \<Longrightarrow> k \<le> 4
   \<Longrightarrow> \<forall>r \<in> set refs. level r < k \<longrightarrow> (\<forall>u0 \<in> set db0. uid u0 = uid r \<longrightarrow> level u0 \<le> k)
   \<Longrightarrow> list_all2 grows db0 (fst (promoteLoop q k refs db n))"
proof (induction refs arbitrary: db n)
  case Nil
  then show ?case by simp
next
  case (Cons r refs)
  show ?case
  proof (cases "3 \<le> length (filter (q r) db) \<and> level r < k")
    case True
    have "list_all2 grows db0 (saveLevel (r\<lparr>level := k\<rparr>) db)"
      using saveLevel_grows[OF Cons.prems(1), of "r\<lparr>level := k\<rparr>"] Cons.prems(2,3) True by simp
    then show ?thesis using Cons.IH[OF _ Cons.prems(2)] Cons.prems(3) True by simp
  next
    case False
    then show ?thesis using Cons.IH[OF Cons.prems(1,2)] Cons.prems(3) by auto
  qed
qed

lemma distinct_uid_same:
  "distinct (map uid db) \<Longrightarrow> a \<in> set db \<Longrightarrow> b \<in> set db \<Longrightarrow> uid a = uid b \<Longrightarrow> a = b"
  by (induction db) (auto simp: image_iff)

lemma grows_list_corresponding:
  "list_all2 grows db0 db \<Longrightarrow> distinct (map uid db0) \<Longrightarrow> r \<in> set db \<Longrightarrow> u0 \<in> set db0
   \<Longrightarrow> uid u0 = uid r \<Longrightarrow> grows u0 r"
proof (induction rule: list_all2_induct)
  case Nil
  then show ?case by simp
next
  case (Cons a db0 b db)
  have i: "uid b = uid a" using Cons.hyps(1) by (simp add: grows_fields)
  have m: "map uid db = map uid db0" using Cons.hyps(2) by (rule grows_list_uids)
  show ?case
  proof (cases "u0 = a")
    case True
    show ?thesis
    proof (cases "r = b")
      case True
      then show ?thesis using \<open>u0 = a\<close> Cons.hyps(1) by simp
    next
      case False
      then have "r \<in> set db" using Cons.prems(2) by simp
      then have "uid r \<in> set (map uid db0)" using m by (metis image_eqI set_map)
      then show ?thesis using Cons.prems(1,4) True by simp
    qed
  next
    case False
    then have u: "u0 \<in> set db0" using Cons.prems(3) by simp
    show ?thesis
    proof (cases "r = b")
      case True
      then have "uid a \<in> set (map uid db0)" using u Cons.prems(4) i by (metis image_eqI set_map)
      then show ?thesis using Cons.prems(1) by simp
    next
      case False
      then show ?thesis using Cons u by simp
    qed
  qed
qed


lemma finalLevel_ge: "level user \<le> 4 \<Longrightarrow> level user \<le> finalLevel user n2 n3 n4"
  by (simp add: finalLevel_def Let_def)

lemma evalNode_grows:
  assumes d: "distinct (map uid db)" and b: "\<forall>u \<in> set db. level u \<le> 4" and m: "user \<in> set db"
  shows "list_all2 grows db (evalNode user db)"
proof -
  obtain db2 n2 where p2: "promoteLoop subReferrals 2
      (filter (\<lambda>u. sponsorBy u = sponsorId user) db) db 0 = (db2, n2)" by (meson surj_pair)
  obtain db3 n3 where p3: "promoteLoop (subReferralsAt 2) 3
      (filter (\<lambda>u. level u = 2 \<and> sponsorBy u = sponsorId user) db2) db2 0 = (db3, n3)"
    by (meson surj_pair)
  obtain db4 n4 where p4: "promoteLoop (subReferralsAt 3) 4
      (filter (\<lambda>u. level u = 3 \<and> sponsorBy u = sponsorId user) db3) db3 0 = (db4, n4)"
    by (meson surj_pair)
  have g0: "list_all2 grows db db" using b by (rule grows_list_refl)
  have c2: "\<forall>r \<in> set (filter (\<lambda>u. sponsorBy u = sponsorId user) db).
              level r < 2 \<longrightarrow> (\<forall>u0 \<in> set db. uid u0 = uid r \<longrightarrow> level u0 \<le> 2)"
    using distinct_uid_same[OF d] by fastforce
  have g2: "list_all2 grows db db2"
    using promoteLoop_grows[OF g0 _ c2, of subReferrals 0] by (simp add: p2)
  have c3: "\<forall>r \<in> set (filter (\<lambda>u. level u = 2 \<and> sponsorBy u = sponsorId user) db2).
              level r < 3 \<longrightarrow> (\<forall>u0 \<in> set db. uid u0 = uid r \<longrightarrow> level u0 \<le> 3)"
  proof (intro ballI impI)
    fix r u0
    assume r: "r \<in> set (filter (\<lambda>u. level u = 2 \<and> sponsorBy u = sponsorId user) db2)"
      and u0: "u0 \<in> set db" and e: "uid u0 = uid r"
    have "grows u0 r" using grows_list_corresponding[OF g2 d _ u0 e] r by simp
    then show "level u0 \<le> 3" using r by (simp add: grows_def)
  qed
  have g3: "list_all2 grows db db3"
    using promoteLoop_grows[OF g2 _ c3, of "subReferralsAt 2" 0] by (simp add: p3)
  have c4: "\<forall>r \<in> set (filter (\<lambda>u. level u = 3 \<and> sponsorBy u = sponsorId user) db3).
              level r < 4 \<longrightarrow> (\<forall>u0 \<in> set db. uid u0 = uid r \<longrightarrow> level u0 \<le> 4)"
    using b by simp
  have g4: "list_all2 grows db db4"
    using promoteLoop_grows[OF g3 _ c4, of "subReferralsAt 3" 0] by (simp add: p4)
  have cf: "\<forall>u0 \<in> set db. uid u0 = uid (user\<lparr>level := finalLevel user n2 n3 n4\<rparr>)
              \<longrightarrow> level u0 \<le> level (user\<lparr>level := finalLevel user n2 n3 n4\<rparr>)"
  proof (intro ballI impI)
    fix u0 assume "u0 \<in> set db" and "uid u0 = uid (user\<lparr>level := finalLevel user n2 n3 n4\<rparr>)"
    then have "u0 = user" using distinct_uid_same[OF d _ m] by simp
    then show "level u0 \<le> level (user\<lparr>level := finalLevel user n2 n3 n4\<rparr>)"
      using finalLevel_ge b m by simp
  qed
  have "list_all2 grows db (saveLevel (user\<lparr>level := finalLevel user n2 n3 n4\<rparr>) db4)"
    using saveLevel_grows[OF g4 cf] by (simp add: finalLevel_le4)
  then show ?thesis using g4 by (simp add: evalNode_unfold[OF p2 p3 p4])
qed

lemma updateSponsorLevels_grows:
  "updateSponsorLevels fuel i db = Some db' \<Longrightarrow> distinct (map uid db)
   \<Longrightarrow> \<forall>u \<in> set db. level u \<le> 4 \<Longrightarrow> list_all2 grows db db'"
proof (induction fuel arbitrary: i db)
  case 0
  then show ?case by simp
next
  case (Suc fuel)
  show ?case
  proof (cases "findById i db")
    case None
    then show ?thesis using Suc.prems by (simp add: grows_list_refl)
  next
    case (Some user)
    then have m: "user \<in> set db" using find_uid[of i db user] by (simp add: findById_def)
    have g: "list_all2 grows db (evalNode user db)"
      using evalNode_grows[OF Suc.prems(2,3) m] .
    show ?thesis
    proof (cases "sponsorBy user \<noteq> ''root''")
      case False
      then show ?thesis using Suc.prems(1) Some g by (simp add: Let_def)
    next
      case True
      show ?thesis
      proof (cases "find (\<lambda>u. sponsorId u = sponsorBy user) (evalNode user db)")
        case None
        then show ?thesis using Suc.prems(1) Some True g by (simp add: Let_def)
      next
        case (Some parentSponsor)
        then have r: "updateSponsorLevels fuel (uid parentSponsor) (evalNode user db) = Some db'"
          using Suc.prems(1) \<open>findById i db = Some user\<close> True by (simp add: Let_def)
        have d': "distinct (map uid (evalNode user db))"
          using grows_list_uids[OF g] Suc.prems(2) by simp
        have "list_all2 grows (evalNode user db) db'"
          using Suc.IH[OF r d'] grows_list_bounded[OF g] by blast
        then show ?thesis using g grows_list_trans by blast
      qed
    qed
  qed
qed

text \<open>
  C2, amended. In a store with distinct identifiers and no rank above 4, an invocation of
  the engine that returns leaves every document as it was except for its rank, and the
  rank \<open>r\<close> of every user, visited or not, ends between \<open>r\<close> and 4: it never goes down,
  and it may rise by more than one. The same holds for the evaluation of a single node.
\<close>

theorem rank_moves_between_old_and_4:
  assumes "distinct (map uid db)" and "\<forall>u \<in> set db. level u \<le> 4"
  shows "(\<forall>db'. updateSponsorLevels fuel i db = Some db' \<longrightarrow> list_all2 grows db db')
         \<and> (\<forall>user. findById i db = Some user \<longrightarrow> list_all2 grows db (evalNode user db))"
proof (intro conjI allI impI)
  fix db'
  assume "updateSponsorLevels fuel i db = Some db'"
  then show "list_all2 grows db db'" using updateSponsorLevels_grows assms by blast
next
  fix user
  assume "findById i db = Some user"
  then have "user \<in> set db" using find_uid[of i db user] by (simp add: findById_def)
  then show "list_all2 grows db (evalNode user db)" using evalNode_grows assms by blast
qed

theorem rank_moves_between_old_and_4_witness:
  "\<exists>db'. updateSponsorLevels 1 0 exDeep = Some db' \<and> list_all2 grows exDeep db'
         \<and> map level exDeep = [0, 0, 0, 0, 0, 0, 0, 0, 0, 0, 0, 0, 0]
         \<and> map level db' = [2, 2, 2, 2, 0, 0, 0, 0, 0, 0, 0, 0, 0]"
proof -
  have "map_option (map level) (updateSponsorLevels 1 0 exDeep)
          = Some [2, 2, 2, 2, 0, 0, 0, 0, 0, 0, 0, 0, 0]" by code_simp
  then obtain db' where r: "updateSponsorLevels 1 0 exDeep = Some db'"
    and l: "map level db' = [2, 2, 2, 2, 0, 0, 0, 0, 0, 0, 0, 0, 0]" by auto
  have d: "distinct (map uid exDeep)" by (simp add: exDeep_def exUser_def)
  have b: "\<forall>u \<in> set exDeep. level u \<le> 4" by (simp add: exDeep_def exUser_def)
  have l0: "map level exDeep = [0, 0, 0, 0, 0, 0, 0, 0, 0, 0, 0, 0, 0]"
    by (simp add: exDeep_def exUser_def)
  have g: "list_all2 grows exDeep db'"
    using rank_moves_between_old_and_4[OF d b, of 1 0] r by simp
  show ?thesis using r g l l0 by (intro exI[of _ db'] conjI)
qed

subsection \<open>The loops as maps\<close>

lemma saveLevel_map:
  "distinct (map uid db) \<Longrightarrow> r \<in> set db
   \<Longrightarrow> saveLevel (r\<lparr>level := k\<rparr>) db = map (\<lambda>u. if u = r then r\<lparr>level := k\<rparr> else u) db"
proof (induction db)
  case Nil
  then show ?case by simp
next
  case (Cons a db)
  show ?case
  proof (cases "uid a = uid r")
    case True
    have ar: "a = r" using distinct_uid_same[OF Cons.prems(1) _ Cons.prems(2) True] by simp
    have "r \<notin> set db" using Cons.prems(1) ar by (auto simp: image_iff)
    then have "map (\<lambda>u. if u = r then r\<lparr>level := k\<rparr> else u) db = db"
      by (induction db) auto
    then show ?thesis using True ar by simp
  next
    case False
    then have "a \<noteq> r" by auto
    then show ?thesis using Cons False by simp
  qed
qed

lemma filter_map_same:
  "\<forall>x \<in> set xs. h x = x \<or> (\<not> P x \<and> \<not> P (h x)) \<Longrightarrow> filter P (map h xs) = filter P xs"
  by (induction xs) auto

lemma promoteLoop_map:
  assumes "distinct (map uid db)" and "set refs \<subseteq> set db" and "distinct refs"
    and "\<forall>r \<in> set refs. \<forall>r' \<in> set refs. \<not> q r r' \<and> \<not> q r (r'\<lparr>level := k\<rparr>)"
  shows "promoteLoop q k refs db n =
           (map (promoted q k refs db) db,
            n + length (filter (\<lambda>r. 3 \<le> length (filter (q r) db) \<and> level r < k) refs))"
  using assms
proof (induction refs arbitrary: db n)
  case Nil
  then show ?case by (simp add: promoted_def)
next
  case (Cons r refs)
  have rdb: "r \<in> set db" using Cons.prems(2) by simp
  have rnot: "r \<notin> set refs" using Cons.prems(3) by simp
  have q': "\<forall>a \<in> set refs. \<forall>b \<in> set refs. \<not> q a b \<and> \<not> q a (b\<lparr>level := k\<rparr>)"
    using Cons.prems(4) by simp
  show ?case
  proof (cases "3 \<le> length (filter (q r) db) \<and> level r < k")
    case False
    have "promoteLoop q k (r # refs) db n = promoteLoop q k refs db n" using False by auto
    also have "\<dots> = (map (promoted q k refs db) db,
            n + length (filter (\<lambda>r. 3 \<le> length (filter (q r) db) \<and> level r < k) refs))"
      using Cons.IH[OF Cons.prems(1) _ _ q'] Cons.prems(2,3) by simp
    also have "map (promoted q k refs db) db = map (promoted q k (r # refs) db) db"
    proof (rule map_cong)
      fix u assume "u \<in> set db"
      show "promoted q k refs db u = promoted q k (r # refs) db u"
        using False by (cases "u = r") (simp_all add: promoted_def)
    qed simp
    finally show ?thesis using False by auto
  next
    case True
    define h where "h = (\<lambda>u. if u = r then r\<lparr>level := k\<rparr> else u)"
    define db1 where "db1 = map h db"
    have h_r: "h r = r\<lparr>level := k\<rparr>" and h_other: "\<And>u. u \<noteq> r \<Longrightarrow> h u = u"
      by (simp_all add: h_def)
    have h_uid: "\<And>u. uid (h u) = uid u" by (simp add: h_def)
    have sv: "saveLevel (r\<lparr>level := k\<rparr>) db = db1"
      using saveLevel_map[OF Cons.prems(1) rdb] by (simp add: db1_def h_def)
    have u1: "map uid db1 = map uid db" by (simp add: db1_def h_uid)
    have d1: "distinct (map uid db1)" unfolding u1 by (rule Cons.prems(1))
    have s1: "set refs \<subseteq> set db1"
    proof
      fix x assume x: "x \<in> set refs"
      then have "x \<in> set db" and "x \<noteq> r" using Cons.prems(2) rnot by auto
      have hx: "h x = x" using \<open>x \<noteq> r\<close> by (simp add: h_other)
      have "h x \<in> h ` set db" using \<open>x \<in> set db\<close> by (rule imageI)
      then have "x \<in> h ` set db" by (simp only: hx)
      then show "x \<in> set db1" by (simp add: db1_def)
    qed
    have cnt: "\<And>a. a \<in> set refs \<Longrightarrow> filter (q a) db1 = filter (q a) db"
    proof -
      fix a assume a: "a \<in> set refs"
      have nq: "\<not> q a r \<and> \<not> q a (r\<lparr>level := k\<rparr>)" using Cons.prems(4) a by simp
      have "\<forall>x \<in> set db. h x = x \<or> (\<not> q a x \<and> \<not> q a (h x))"
      proof
        fix x assume "x \<in> set db"
        show "h x = x \<or> (\<not> q a x \<and> \<not> q a (h x))"
          by (cases "x = r") (simp_all add: h_r h_other nq)
      qed
      then show "filter (q a) db1 = filter (q a) db"
        unfolding db1_def by (rule filter_map_same)
    qed
    have ih: "promoteLoop q k refs db1 (n + 1) =
           (map (promoted q k refs db1) db1,
            n + 1 + length (filter (\<lambda>r. 3 \<le> length (filter (q r) db1) \<and> level r < k) refs))"
      using Cons.IH[OF d1 s1 _ q'] Cons.prems(3) by simp
    have n1: "filter (\<lambda>r. 3 \<le> length (filter (q r) db1) \<and> level r < k) refs
              = filter (\<lambda>r. 3 \<le> length (filter (q r) db) \<and> level r < k) refs"
      by (rule filter_cong) (simp_all add: cnt)
    have notin: "r\<lparr>level := k\<rparr> \<notin> set refs"
    proof
      assume "r\<lparr>level := k\<rparr> \<in> set refs"
      then have "r\<lparr>level := k\<rparr> \<in> set db" using Cons.prems(2) by auto
      then have "r\<lparr>level := k\<rparr> = r"
        using distinct_uid_same[OF Cons.prems(1) _ rdb] by simp
      then have "level (r\<lparr>level := k\<rparr>) = level r" by simp
      then show False using True by simp
    qed
    have pt: "\<And>u. u \<in> set db \<Longrightarrow> promoted q k refs db1 (h u) = promoted q k (r # refs) db u"
    proof -
      fix u assume "u \<in> set db"
      show "promoted q k refs db1 (h u) = promoted q k (r # refs) db u"
      proof (cases "u = r")
        case True
        then show ?thesis using notin \<open>3 \<le> length (filter (q r) db) \<and> level r < k\<close>
          by (simp add: promoted_def h_r)
      next
        case False
        then show ?thesis
          by (cases "u \<in> set refs") (simp_all add: promoted_def h_other cnt)
      qed
    qed
    have "map (promoted q k refs db1 \<circ> h) db = map (promoted q k (r # refs) db) db"
      by (rule map_cong) (simp_all add: pt)
    then have mp: "map (promoted q k refs db1) db1 = map (promoted q k (r # refs) db) db"
      by (simp add: db1_def)
    have "promoteLoop q k (r # refs) db n = promoteLoop q k refs db1 (n + 1)"
      using True sv by simp
    then show ?thesis using ih n1 mp True by simp
  qed
qed

subsection \<open>Node evaluation in a well-formed network\<close>

lemma forest_child_code:
  "forest d db \<Longrightarrow> z \<in> set db \<Longrightarrow> c \<in> set db \<Longrightarrow> sponsorBy c = sponsorId z
   \<Longrightarrow> d (sponsorId z) < d (sponsorId c)"
  by (simp add: forest_def)

lemma forest_not_own_child: "forest d db \<Longrightarrow> z \<in> set db \<Longrightarrow> sponsorBy z \<noteq> sponsorId z"
  using forest_child_code[of d db z z] by auto

lemma forest_no_two_cycle:
  "forest d db \<Longrightarrow> z \<in> set db \<Longrightarrow> c \<in> set db \<Longrightarrow> sponsorBy c = sponsorId z
   \<Longrightarrow> sponsorBy z \<noteq> sponsorId c"
  using forest_child_code[of d db z c] forest_child_code[of d db c z] by force

lemma relabel_fields:
  "uid (relabel s L u) = uid u" "sponsorId (relabel s L u) = sponsorId u"
  "sponsorBy (relabel s L u) = sponsorBy u" "sponsorTree (relabel s L u) = sponsorTree u"
  by (simp_all add: relabel_def)

lemma relabel_level_id: "relabel s level u = u"
  by (simp add: relabel_def)

lemma query_facts:
  "subReferrals r x \<Longrightarrow> sponsorBy x = sponsorId r"
  "subReferralsAt l r x \<Longrightarrow> sponsorBy x = sponsorId r"
  "subReferrals (r\<lparr>level := j\<rparr>) = subReferrals r"
  "subReferralsAt l (r\<lparr>level := j\<rparr>) = subReferralsAt l r"
  by (auto simp: subReferrals_def subReferralsAt_def fun_eq_iff)

lemma promoteLoop_relabel:
  assumes fr: "forest d db" and z: "z \<in> set db"
    and Q1: "\<And>r x. q r x \<Longrightarrow> sponsorBy x = sponsorId r"
    and Q2: "\<And>r j. q (r\<lparr>level := j\<rparr>) = q r"
  shows "fst (promoteLoop q k
            (filter (\<lambda>u. R (level u) \<and> sponsorBy u = sponsorId z) (map (relabel (sponsorId z) L) db))
            (map (relabel (sponsorId z) L) db) n)
         = map (relabel (sponsorId z)
                 (\<lambda>u. if R (L u) \<and> 3 \<le> length (filter (q u) db) \<and> L u < k then k else L u)) db"
proof -
  define s where "s = sponsorId z"
  define g where "g = relabel s L"
  define db' where "db' = map g db"
  define refs where "refs = filter (\<lambda>u. R (level u) \<and> sponsorBy u = s) db'"
  define L' where "L' = (\<lambda>u. if R (L u) \<and> 3 \<le> length (filter (q u) db) \<and> L u < k then k else L u)"
  have du: "distinct (map uid db)" using fr by (simp add: forest_def)
  have g_uid: "\<And>u. uid (g u) = uid u" and g_by: "\<And>u. sponsorBy (g u) = sponsorBy u"
    and g_sid: "\<And>u. sponsorId (g u) = sponsorId u"
    by (simp_all add: g_def relabel_fields)
  have g_child: "\<And>u. sponsorBy u = s \<Longrightarrow> g u = u\<lparr>level := L u\<rparr>"
    and g_other: "\<And>u. sponsorBy u \<noteq> s \<Longrightarrow> g u = u"
    by (simp_all add: g_def relabel_def)
  have child_code: "\<And>u. u \<in> set db \<Longrightarrow> sponsorBy u = s \<Longrightarrow> sponsorId u \<noteq> s"
    using forest_child_code[OF fr z] by (force simp: s_def)
  have u': "map uid db' = map uid db" by (simp add: db'_def g_uid)
  have d': "distinct (map uid db')" unfolding u' by (rule du)
  have dd': "distinct db'" using d' by (simp add: distinct_map)
  have sub: "set refs \<subseteq> set db'" by (auto simp: refs_def)
  have dr: "distinct refs" using dd' by (simp add: refs_def)
  have refs_src: "\<And>r. r \<in> set refs \<Longrightarrow> sponsorBy r = s \<and> sponsorId r \<noteq> s"
  proof -
    fix r assume "r \<in> set refs"
    then have rs: "sponsorBy r = s" and "r \<in> set db'" by (simp_all add: refs_def)
    then obtain u where u: "u \<in> set db" and r: "r = g u" by (auto simp: db'_def)
    have "sponsorBy u = s" using rs r g_by by simp
    then have "sponsorId u \<noteq> s" using child_code u by blast
    then show "sponsorBy r = s \<and> sponsorId r \<noteq> s" using rs r g_sid by simp
  qed
  have qc: "\<forall>r \<in> set refs. \<forall>r' \<in> set refs. \<not> q r r' \<and> \<not> q r (r'\<lparr>level := k\<rparr>)"
  proof (intro ballI)
    fix r r' assume r: "r \<in> set refs" and r': "r' \<in> set refs"
    have a: "sponsorId r \<noteq> s" using refs_src[OF r] by simp
    have b: "sponsorBy r' = s" using refs_src[OF r'] by simp
    have "\<not> q r r'" using Q1[of r r'] a b by auto
    moreover have "\<not> q r (r'\<lparr>level := k\<rparr>)" using Q1[of r "r'\<lparr>level := k\<rparr>"] a b by auto
    ultimately show "\<not> q r r' \<and> \<not> q r (r'\<lparr>level := k\<rparr>)" by simp
  qed
  have lm: "fst (promoteLoop q k refs db' n) = map (promoted q k refs db') db'"
    using promoteLoop_map[OF d' sub dr qc, of n] by simp
  have cnt: "\<And>u. u \<in> set db \<Longrightarrow> sponsorBy u = s \<Longrightarrow> filter (q u) db' = filter (q u) db"
  proof -
    fix u assume u: "u \<in> set db" and us: "sponsorBy u = s"
    have ne: "sponsorId u \<noteq> s" using child_code[OF u us] .
    have "\<forall>x \<in> set db. g x = x \<or> (\<not> q u x \<and> \<not> q u (g x))"
    proof
      fix x assume "x \<in> set db"
      show "g x = x \<or> (\<not> q u x \<and> \<not> q u (g x))"
      proof (cases "sponsorBy x = s")
        case True
        then have "\<not> q u x" using Q1[of u x] ne by auto
        moreover have "\<not> q u (g x)" using Q1[of u "g x"] ne True g_by by auto
        ultimately show ?thesis by simp
      next
        case False
        then show ?thesis by (simp add: g_other)
      qed
    qed
    then show "filter (q u) db' = filter (q u) db" unfolding db'_def by (rule filter_map_same)
  qed
  have pt: "\<And>u. u \<in> set db \<Longrightarrow> promoted q k refs db' (g u) = relabel s L' u"
  proof -
    fix u assume u: "u \<in> set db"
    show "promoted q k refs db' (g u) = relabel s L' u"
    proof (cases "sponsorBy u = s")
      case False
      then have "g u \<notin> set refs" using g_other[OF False] by (simp add: refs_def)
      then show ?thesis using False by (simp add: promoted_def relabel_def g_other)
    next
      case True
      have gu: "g u = u\<lparr>level := L u\<rparr>" using g_child[OF True] .
      have mem: "g u \<in> set db'" using u by (simp add: db'_def)
      have inrefs: "g u \<in> set refs \<longleftrightarrow> R (L u)"
        using mem True gu by (simp add: refs_def)
      have c: "filter (q (g u)) db' = filter (q u) db"
        using cnt[OF u True] Q2[where r = u and j = "L u"] gu by simp
      show ?thesis
        unfolding promoted_def inrefs c
        using True by (simp add: gu relabel_def L'_def)
    qed
  qed
  have "map (promoted q k refs db' \<circ> g) db = map (relabel s L') db"
    by (rule map_cong) (simp_all add: pt)
  then have "map (promoted q k refs db') db' = map (relabel s L') db"
    by (simp add: db'_def)
  then show ?thesis using lm
    unfolding refs_def db'_def g_def s_def L'_def by simp
qed


lemma finalLevel_ge1: "3 \<le> length (sponsorTree user) \<Longrightarrow> 1 \<le> finalLevel user n2 n3 n4"
  by (simp add: finalLevel_def Let_def)

lemma evalNode_forest:
  assumes fr: "forest d db" and z: "z \<in> set db"
  shows "\<exists>lf. lf \<le> 4 \<and> (3 \<le> length (sponsorTree z) \<longrightarrow> 1 \<le> lf)
            \<and> evalNode z db =
                map (\<lambda>u. if u = z then z\<lparr>level := lf\<rparr>
                          else relabel (sponsorId z) (childLevel db) u) db"
proof -
  define s where "s = sponsorId z"
  define L2 where "L2 = (\<lambda>u. if True \<and> 3 \<le> length (filter (subReferrals u) db) \<and> level u < 2
                             then 2 else level u)"
  define L3 where "L3 = (\<lambda>u. if L2 u = 2 \<and> 3 \<le> length (filter (subReferralsAt 2 u) db) \<and> L2 u < 3
                             then 3 else L2 u)"
  define L4 where "L4 = (\<lambda>u. if L3 u = 3 \<and> 3 \<le> length (filter (subReferralsAt 3 u) db) \<and> L3 u < 4
                             then 4 else L3 u)"
  define db2 where "db2 = map (relabel s L2) db"
  define db3 where "db3 = map (relabel s L3) db"
  define db4 where "db4 = map (relabel s L4) db"
  have id0: "map (relabel (sponsorId z) level) db = db"
    by (rule map_idI) (simp add: relabel_level_id)
  have e2: "fst (promoteLoop subReferrals 2 (filter (\<lambda>u. sponsorBy u = s) db) db 0) = db2"
    using promoteLoop_relabel[OF fr z, of subReferrals 2 "\<lambda>_. True" level 0]
    by (simp add: query_facts id0 s_def db2_def L2_def)
  have e3: "fst (promoteLoop (subReferralsAt 2) 3
                  (filter (\<lambda>u. level u = 2 \<and> sponsorBy u = s) db2) db2 0) = db3"
    using promoteLoop_relabel[OF fr z, of "subReferralsAt 2" 3 "\<lambda>l. l = 2" L2 0]
    by (simp add: query_facts s_def db2_def db3_def L3_def)
  have e4: "fst (promoteLoop (subReferralsAt 3) 4
                  (filter (\<lambda>u. level u = 3 \<and> sponsorBy u = s) db3) db3 0) = db4"
    using promoteLoop_relabel[OF fr z, of "subReferralsAt 3" 4 "\<lambda>l. l = 3" L3 0]
    by (simp add: query_facts s_def db3_def db4_def L4_def)
  obtain n2 where p2: "promoteLoop subReferrals 2
      (filter (\<lambda>u. sponsorBy u = sponsorId z) db) db 0 = (db2, n2)"
    using e2 unfolding s_def by (metis prod.collapse)
  obtain n3 where p3: "promoteLoop (subReferralsAt 2) 3
      (filter (\<lambda>u. level u = 2 \<and> sponsorBy u = sponsorId z) db2) db2 0 = (db3, n3)"
    using e3 unfolding s_def by (metis prod.collapse)
  obtain n4 where p4: "promoteLoop (subReferralsAt 3) 4
      (filter (\<lambda>u. level u = 3 \<and> sponsorBy u = sponsorId z) db3) db3 0 = (db4, n4)"
    using e4 unfolding s_def by (metis prod.collapse)
  define lf where "lf = finalLevel z n2 n3 n4"
  have ev: "evalNode z db = (if lf = level z then db4 else saveLevel (z\<lparr>level := lf\<rparr>) db4)"
    using evalNode_unfold[OF p2 p3 p4] by (simp add: lf_def)
  have L4c: "L4 = childLevel db"
    by (simp add: fun_eq_iff L4_def L3_def L2_def childLevel_def Let_def)
  have zs: "sponsorBy z \<noteq> s" using forest_not_own_child[OF fr z] by (simp add: s_def)
  have zfix: "relabel s L4 z = z" using zs by (simp add: relabel_def)
  have z4: "z \<in> set db4"
  proof -
    have "relabel s L4 z \<in> relabel s L4 ` set db" using z by (rule imageI)
    then show ?thesis by (simp add: db4_def zfix)
  qed
  have du: "distinct (map uid db)" using fr by (simp add: forest_def)
  have d4: "distinct (map uid db4)" using du by (simp add: db4_def relabel_fields comp_def)
  have sv: "saveLevel (z\<lparr>level := lf\<rparr>) db4 = map (\<lambda>u. if u = z then z\<lparr>level := lf\<rparr> else u) db4"
    using saveLevel_map[OF d4 z4] .
  have same: "lf = level z \<Longrightarrow> map (\<lambda>u. if u = z then z\<lparr>level := lf\<rparr> else u) db4 = db4"
    by (induction db4) auto
  have ev2: "evalNode z db = map (\<lambda>u. if u = z then z\<lparr>level := lf\<rparr> else u) db4"
    using ev sv same by (cases "lf = level z") simp_all
  have pt: "\<And>u. u \<in> set db \<Longrightarrow>
             (if relabel s L4 u = z then z\<lparr>level := lf\<rparr> else relabel s L4 u)
             = (if u = z then z\<lparr>level := lf\<rparr> else relabel s L4 u)"
  proof -
    fix u assume u: "u \<in> set db"
    show "(if relabel s L4 u = z then z\<lparr>level := lf\<rparr> else relabel s L4 u)
             = (if u = z then z\<lparr>level := lf\<rparr> else relabel s L4 u)"
    proof (cases "u = z")
      case True
      then show ?thesis by (simp add: zfix)
    next
      case False
      have "uid u \<noteq> uid z" using distinct_uid_same[OF du u z] False by blast
      then have "relabel s L4 u \<noteq> z" using relabel_fields(1)[of s L4 u] by metis
      then show ?thesis using False by simp
    qed
  qed
  have "map ((\<lambda>u. if u = z then z\<lparr>level := lf\<rparr> else u) \<circ> relabel s L4) db
        = map (\<lambda>u. if u = z then z\<lparr>level := lf\<rparr> else relabel s L4 u) db"
    by (rule map_cong) (simp_all add: pt)
  then have "evalNode z db = map (\<lambda>u. if u = z then z\<lparr>level := lf\<rparr> else relabel s L4 u) db"
    using ev2 by (simp add: db4_def)
  then have "evalNode z db =
                map (\<lambda>u. if u = z then z\<lparr>level := lf\<rparr>
                          else relabel (sponsorId z) (childLevel db) u) db"
    by (simp add: L4c s_def)
  moreover have "lf \<le> 4" by (simp add: lf_def finalLevel_le4)
  moreover have "3 \<le> length (sponsorTree z) \<longrightarrow> 1 \<le> lf"
    using finalLevel_ge1[of z n2 n3 n4] by (simp add: lf_def)
  ultimately show ?thesis by blast
qed

subsection \<open>Nodes where the engine has nothing to do\<close>

lemma keeps_refl: "keeps d m u u"
  by (simp add: keeps_def)

lemma keeps_fields:
  assumes "keeps d m u v"
  shows "uid v = uid u" and "sponsorId v = sponsorId u" and "sponsorBy v = sponsorBy u"
    and "sponsorTree v = sponsorTree u"
proof -
  have e: "v\<lparr>level := 0\<rparr> = u\<lparr>level := 0\<rparr>" using assms by (simp add: keeps_def)
  have "uid (v\<lparr>level := 0\<rparr>) = uid (u\<lparr>level := 0\<rparr>)" by (simp only: e)
  then show "uid v = uid u" by simp
  have "sponsorId (v\<lparr>level := 0\<rparr>) = sponsorId (u\<lparr>level := 0\<rparr>)" by (simp only: e)
  then show "sponsorId v = sponsorId u" by simp
  have "sponsorBy (v\<lparr>level := 0\<rparr>) = sponsorBy (u\<lparr>level := 0\<rparr>)" by (simp only: e)
  then show "sponsorBy v = sponsorBy u" by simp
  have "sponsorTree (v\<lparr>level := 0\<rparr>) = sponsorTree (u\<lparr>level := 0\<rparr>)" by (simp only: e)
  then show "sponsorTree v = sponsorTree u" by simp
qed

lemma keeps_trans:
  assumes uv: "keeps d m u v" and vw: "keeps d m v w"
  shows "keeps d m u w"
proof -
  have f: "sponsorId v = sponsorId u" "sponsorBy v = sponsorBy u" using keeps_fields[OF uv] by simp_all
  have s: "w\<lparr>level := 0\<rparr> = u\<lparr>level := 0\<rparr>" using uv vw by (simp add: keeps_def)
  have "m < d (sponsorId u) \<Longrightarrow> (w = u \<or> level w = 2 \<or> level w = 3 \<or> level w = 4)"
    using uv vw f unfolding keeps_def by auto
  moreover have "m < d (sponsorId u) \<Longrightarrow> m < d (sponsorBy u) \<Longrightarrow> w = u"
    using uv vw f unfolding keeps_def by auto
  ultimately show ?thesis using s by (auto simp: keeps_def)
qed

lemma keeps_list_refl: "list_all2 (keeps d m) db db"
  by (simp add: list_all2_same keeps_refl)

lemma keeps_list_trans:
  "list_all2 (keeps d m) a b \<Longrightarrow> list_all2 (keeps d m) b c \<Longrightarrow> list_all2 (keeps d m) a c"
  using list_all2_trans[of "keeps d m" "keeps d m" "keeps d m" a b c] keeps_trans by blast

lemma keeps_list_maps:
  "list_all2 (keeps d m) a b \<Longrightarrow>
     map uid b = map uid a \<and> map sponsorId b = map sponsorId a"
  by (induction rule: list_all2_induct) (auto simp: keeps_fields)

lemma list_all2_source: "list_all2 R xs ys \<Longrightarrow> y \<in> set ys \<Longrightarrow> \<exists>x \<in> set xs. R x y"
  by (induction rule: list_all2_induct) auto

lemma list_all2_corresponding:
  "list_all2 R xs ys \<Longrightarrow> (\<And>x y. R x y \<Longrightarrow> uid y = uid x) \<Longrightarrow> distinct (map uid xs)
   \<Longrightarrow> x \<in> set xs \<Longrightarrow> y \<in> set ys \<Longrightarrow> uid x = uid y \<Longrightarrow> R x y"
proof (induction rule: list_all2_induct)
  case Nil
  then show ?case by simp
next
  case (Cons a xs b ys)
  have i: "uid b = uid a" using Cons.hyps(1) Cons.prems(1) by simp
  have notin: "uid a \<notin> uid ` set xs" using Cons.prems(2) by simp
  show ?case
  proof (cases "x = a")
    case True
    show ?thesis
    proof (cases "y = b")
      case True
      then show ?thesis using \<open>x = a\<close> Cons.hyps(1) by simp
    next
      case False
      then have "y \<in> set ys" using Cons.prems(4) by simp
      then obtain x' where "x' \<in> set xs" and "R x' y"
        using list_all2_source[OF Cons.hyps(2)] by blast
      then have "uid y \<in> uid ` set xs" using Cons.prems(1) by (metis imageI)
      then show ?thesis using notin True Cons.prems(5) by simp
    qed
  next
    case False
    then have xs: "x \<in> set xs" using Cons.prems(3) by simp
    show ?thesis
    proof (cases "y = b")
      case True
      then have "uid a \<in> uid ` set xs" using xs Cons.prems(5) i by (metis imageI)
      then show ?thesis using notin by simp
    next
      case False
      then have "y \<in> set ys" using Cons.prems(4) by simp
      then show ?thesis using Cons.IH[OF Cons.prems(1)] Cons.prems(2,5) xs by simp
    qed
  qed
qed

lemma filter_list_all2:
  "list_all2 R xs ys \<Longrightarrow> \<forall>x \<in> set xs. \<forall>y. R x y \<longrightarrow> (P x \<longleftrightarrow> P y) \<and> (P x \<longrightarrow> y = x)
   \<Longrightarrow> filter P ys = filter P xs"
  by (induction rule: list_all2_induct) auto

lemma forest_keeps:
  assumes fr: "forest d db" and k: "list_all2 (keeps d m) db db'"
  shows "forest d db'"
proof -
  have m: "map uid db' = map uid db" "map sponsorId db' = map sponsorId db"
    using keeps_list_maps[OF k] by simp_all
  have e: "\<forall>u \<in> set db'. \<forall>p \<in> set db'. sponsorBy u = sponsorId p \<longrightarrow> d (sponsorId p) < d (sponsorId u)"
  proof (intro ballI impI)
    fix u p assume u: "u \<in> set db'" and p: "p \<in> set db'" and e: "sponsorBy u = sponsorId p"
    obtain u0 where u0: "u0 \<in> set db" "keeps d m u0 u" using list_all2_source[OF k u] by blast
    obtain p0 where p0: "p0 \<in> set db" "keeps d m p0 p" using list_all2_source[OF k p] by blast
    have "sponsorBy u0 = sponsorId p0"
      using e keeps_fields[OF u0(2)] keeps_fields[OF p0(2)] by simp
    then have "d (sponsorId p0) < d (sponsorId u0)" using fr u0(1) p0(1) by (simp add: forest_def)
    then show "d (sponsorId p) < d (sponsorId u)"
      using keeps_fields[OF u0(2)] keeps_fields[OF p0(2)] by simp
  qed
  show ?thesis using fr e unfolding forest_def m by simp
qed

lemma childLevel_cases:
  "childLevel db c = level c \<or> childLevel db c = 2 \<or> childLevel db c = 3 \<or> childLevel db c = 4"
  by (auto simp: childLevel_def Let_def)

lemma evalNode_keeps:
  assumes fr: "forest d db" and z: "z \<in> set db" and dm: "d (sponsorId z) \<le> m"
  shows "list_all2 (keeps d m) db (evalNode z db)"
proof -
  obtain lf where ev: "evalNode z db =
                map (\<lambda>u. if u = z then z\<lparr>level := lf\<rparr>
                          else relabel (sponsorId z) (childLevel db) u) db"
    using evalNode_forest[OF fr z] by blast
  define H where "H = (\<lambda>u. if u = z then z\<lparr>level := lf\<rparr>
                          else relabel (sponsorId z) (childLevel db) u)"
  have "\<forall>u \<in> set db. keeps d m u (H u)"
  proof
    fix u assume "u \<in> set db"
    show "keeps d m u (H u)"
    proof (cases "u = z")
      case True
      then show ?thesis using dm by (simp add: H_def keeps_def)
    next
      case False
      show ?thesis
      proof (cases "sponsorBy u = sponsorId z")
        case True
        have h: "H u = u\<lparr>level := childLevel db u\<rparr>" using False True by (simp add: H_def relabel_def)
        have sh: "(H u)\<lparr>level := 0\<rparr> = u\<lparr>level := 0\<rparr>" by (simp add: h)
        have lv: "level (H u) = childLevel db u" by (simp add: h)
        have "childLevel db u = level u \<Longrightarrow> H u = u" using h by simp
        then have alt: "H u = u \<or> level (H u) = 2 \<or> level (H u) = 3 \<or> level (H u) = 4"
          using childLevel_cases[of db u] lv by metis
        have "\<not> m < d (sponsorBy u)" using True dm by simp
        then show ?thesis unfolding keeps_def using sh alt by blast
      next
        case False
        then show ?thesis using \<open>u \<noteq> z\<close> by (simp add: H_def relabel_def keeps_def)
      qed
    qed
  qed
  then have "list_all2 (keeps d m) db (map H db)"
    by (simp add: list_all2_map2 list_all2_same)
  then show ?thesis using ev by (simp add: H_def)
qed

lemma quiet_evalNode:
  assumes "quiet a db"
  shows "evalNode a db = db"
proof -
  have p2: "promoteLoop subReferrals 2 (filter (\<lambda>u. sponsorBy u = sponsorId a) db) db 0 = (db, 0)"
    by (rule promoteLoop_nothing) (use assms in \<open>auto simp: quiet_def\<close>)
  have p3: "promoteLoop (subReferralsAt 2) 3
              (filter (\<lambda>u. level u = 2 \<and> sponsorBy u = sponsorId a) db) db 0 = (db, 0)"
    by (rule promoteLoop_nothing) (use assms in \<open>auto simp: quiet_def\<close>)
  have p4: "promoteLoop (subReferralsAt 3) 4
              (filter (\<lambda>u. level u = 3 \<and> sponsorBy u = sponsorId a) db) db 0 = (db, 0)"
    by (rule promoteLoop_nothing) (use assms in \<open>auto simp: quiet_def\<close>)
  have "finalLevel a 0 0 0 = level a" using assms by (auto simp: quiet_def finalLevel_def)
  then show ?thesis using evalNode_unfold[OF p2 p3 p4] by simp
qed

lemma findById_mem:
  "distinct (map uid db) \<Longrightarrow> z \<in> set db \<Longrightarrow> findById (uid z) db = Some z"
  unfolding findById_def by (induction db) (auto simp: image_iff)

lemma findById_map:
  "(\<And>u. uid (H u) = uid u) \<Longrightarrow> findById i (map H db) = map_option H (findById i db)"
  unfolding findById_def by (induction db) auto

lemma childLevel_quiet:
  "\<not> (3 \<le> length (filter (subReferrals c) db) \<and> childLevel db c < 2)
   \<and> \<not> (childLevel db c = 2 \<and> 3 \<le> length (filter (subReferralsAt 2 c) db))
   \<and> \<not> (childLevel db c = 3 \<and> 3 \<le> length (filter (subReferralsAt 3 c) db))"
  by (simp add: childLevel_def Let_def)

lemma evalNode_quiet:
  assumes fr: "forest d db" and z: "z \<in> set db"
  shows "\<exists>z'. findById (uid z) (evalNode z db) = Some z' \<and> quiet z' (evalNode z db)"
proof -
  obtain lf where l4: "lf \<le> 4" and l1: "3 \<le> length (sponsorTree z) \<longrightarrow> 1 \<le> lf"
    and ev: "evalNode z db =
                map (\<lambda>u. if u = z then z\<lparr>level := lf\<rparr>
                          else relabel (sponsorId z) (childLevel db) u) db"
    using evalNode_forest[OF fr z] by blast
  define H where "H = (\<lambda>u. if u = z then z\<lparr>level := lf\<rparr>
                          else relabel (sponsorId z) (childLevel db) u)"
  have ev': "evalNode z db = map H db" using ev by (simp add: H_def)
  have du: "distinct (map uid db)" using fr by (simp add: forest_def)
  have H_uid: "\<And>u. uid (H u) = uid u" and H_by: "\<And>u. sponsorBy (H u) = sponsorBy u"
    by (simp_all add: H_def relabel_fields)
  have Hz: "H z = z\<lparr>level := lf\<rparr>" by (simp add: H_def)
  have zs: "sponsorBy z \<noteq> sponsorId z" using forest_not_own_child[OF fr z] .
  have H_child: "\<And>u. sponsorBy u = sponsorId z \<Longrightarrow> H u = u\<lparr>level := childLevel db u\<rparr>"
    using zs by (auto simp: H_def relabel_def)
  have H_other: "\<And>u. u \<noteq> z \<Longrightarrow> sponsorBy u \<noteq> sponsorId z \<Longrightarrow> H u = u"
    by (simp add: H_def relabel_def)
  have f: "findById (uid z) (map H db) = Some (z\<lparr>level := lf\<rparr>)"
    using findById_map[of H "uid z" db] H_uid findById_mem[OF du z] Hz by simp
  have cnt: "\<And>c P. c \<in> set db \<Longrightarrow> sponsorBy c = sponsorId z
              \<Longrightarrow> (\<And>x. P x \<Longrightarrow> sponsorBy x = sponsorId c)
              \<Longrightarrow> (\<And>x. sponsorBy x \<noteq> sponsorId c \<Longrightarrow> \<not> P (H x))
              \<Longrightarrow> filter P (map H db) = filter P db"
  proof -
    fix c P
    assume c: "c \<in> set db" and cs: "sponsorBy c = sponsorId z"
      and P1: "\<And>x. P x \<Longrightarrow> sponsorBy x = sponsorId c"
      and P2: "\<And>x. sponsorBy x \<noteq> sponsorId c \<Longrightarrow> \<not> P (H x)"
    have ne: "sponsorId c \<noteq> sponsorId z" using forest_child_code[OF fr z c cs] by auto
    have nz: "sponsorBy z \<noteq> sponsorId c" using forest_no_two_cycle[OF fr z c cs] .
    have "\<forall>x \<in> set db. H x = x \<or> (\<not> P x \<and> \<not> P (H x))"
    proof
      fix x assume "x \<in> set db"
      show "H x = x \<or> (\<not> P x \<and> \<not> P (H x))"
      proof (cases "x = z \<or> sponsorBy x = sponsorId z")
        case True
        then have "sponsorBy x \<noteq> sponsorId c" using ne nz by auto
        then show ?thesis using P1[of x] P2[of x] by blast
      next
        case False
        then show ?thesis using H_other by simp
      qed
    qed
    then show "filter P (map H db) = filter P db" by (rule filter_map_same)
  qed
  have q: "quiet (z\<lparr>level := lf\<rparr>) (map H db)"
    unfolding quiet_def
  proof (intro conjI ballI impI)
    show "\<not> (3 \<le> length (sponsorTree (z\<lparr>level := lf\<rparr>)) \<and> level (z\<lparr>level := lf\<rparr>) < 1)"
      using l1 by auto
    show "level (z\<lparr>level := lf\<rparr>) \<le> 4" using l4 by simp
  next
    fix v assume v: "v \<in> set (map H db)" and vs: "sponsorBy v = sponsorId (z\<lparr>level := lf\<rparr>)"
    then obtain c where c: "c \<in> set db" and vc: "v = H c" by auto
    have cs: "sponsorBy c = sponsorId z" using vs vc H_by by simp
    have hv: "v = c\<lparr>level := childLevel db c\<rparr>" using vc H_child[OF cs] by simp
    have lv: "level v = childLevel db c" using hv by simp
    have q1: "subReferrals v = subReferrals c" "subReferralsAt 2 v = subReferralsAt 2 c"
      "subReferralsAt 3 v = subReferralsAt 3 c"
      using hv by (simp_all add: query_facts)
    have c1: "filter (subReferrals c) (map H db) = filter (subReferrals c) db"
      by (rule cnt[OF c cs]) (simp_all add: subReferrals_def H_by)
    have c2: "filter (subReferralsAt 2 c) (map H db) = filter (subReferralsAt 2 c) db"
      by (rule cnt[OF c cs]) (simp_all add: subReferralsAt_def H_by)
    have c3: "filter (subReferralsAt 3 c) (map H db) = filter (subReferralsAt 3 c) db"
      by (rule cnt[OF c cs]) (simp_all add: subReferralsAt_def H_by)
    show "\<not> (3 \<le> length (filter (subReferrals v) (map H db)) \<and> level v < 2)"
      unfolding q1 c1 lv using childLevel_quiet[of c db] by blast
    show "\<not> (level v = 2 \<and> 3 \<le> length (filter (subReferralsAt 2 v) (map H db)))"
      unfolding q1 c2 lv using childLevel_quiet[of c db] by blast
    show "\<not> (level v = 3 \<and> 3 \<le> length (filter (subReferralsAt 3 v) (map H db)))"
      unfolding q1 c3 lv using childLevel_quiet[of c db] by blast
  qed
  show ?thesis using f q ev' by simp
qed

lemma keeps_quiet:
  assumes fr: "forest d db" and k: "list_all2 (keeps d m) db db'" and a: "a \<in> set db"
    and ma: "m < d (sponsorId a)" and q: "quiet a db" and f: "findById (uid a) db' = Some a'"
  shows "quiet a' db'"
proof -
  have du: "distinct (map uid db)" using fr by (simp add: forest_def)
  have a': "a' \<in> set db'" and ua: "uid a' = uid a"
    using f find_uid[of "uid a" db' a'] by (simp_all add: findById_def)
  have ka: "keeps d m a a'"
    using list_all2_corresponding[OF k _ du a a'] ua keeps_fields(1) by metis
  have fa: "sponsorId a' = sponsorId a" "sponsorTree a' = sponsorTree a"
    using keeps_fields[OF ka] by simp_all
  have la: "a' = a \<or> level a' = 2 \<or> level a' = 3 \<or> level a' = 4"
    using ka ma by (simp add: keeps_def)
  have fixed: "\<And>x y. x \<in> set db \<Longrightarrow> keeps d m x y \<Longrightarrow> m < d (sponsorBy x)
                 \<Longrightarrow> m < d (sponsorId x) \<Longrightarrow> y = x"
    by (simp add: keeps_def)
  have child_fixed: "\<And>c c'. c \<in> set db \<Longrightarrow> keeps d m c c' \<Longrightarrow> sponsorBy c = sponsorId a \<Longrightarrow> c' = c"
  proof -
    fix c c' assume c: "c \<in> set db" and kc: "keeps d m c c'" and cs: "sponsorBy c = sponsorId a"
    have "d (sponsorId a) < d (sponsorId c)" using forest_child_code[OF fr a c cs] .
    then show "c' = c" using fixed[OF c kc] cs ma by simp
  qed
  have cnt: "\<And>c (P :: user \<Rightarrow> bool). c \<in> set db \<Longrightarrow> sponsorBy c = sponsorId a
              \<Longrightarrow> (\<And>x. P x \<Longrightarrow> sponsorBy x = sponsorId c)
              \<Longrightarrow> (\<And>(x :: user) y. sponsorBy x \<noteq> sponsorId c \<Longrightarrow> sponsorBy y = sponsorBy x \<Longrightarrow> \<not> P y)
              \<Longrightarrow> filter P db' = filter P db"
  proof -
    fix c and P :: "user \<Rightarrow> bool"
    assume c: "c \<in> set db" and cs: "sponsorBy c = sponsorId a"
      and P1: "\<And>x. P x \<Longrightarrow> sponsorBy x = sponsorId c"
      and P2: "\<And>(x :: user) y. sponsorBy x \<noteq> sponsorId c \<Longrightarrow> sponsorBy y = sponsorBy x \<Longrightarrow> \<not> P y"
    have mc: "m < d (sponsorId c)" using forest_child_code[OF fr a c cs] ma by simp
    have "\<forall>x \<in> set db. \<forall>y. keeps d m x y \<longrightarrow> (P x \<longleftrightarrow> P y) \<and> (P x \<longrightarrow> y = x)"
    proof (intro ballI allI impI)
      fix x y assume x: "x \<in> set db" and kx: "keeps d m x y"
      show "(P x \<longleftrightarrow> P y) \<and> (P x \<longrightarrow> y = x)"
      proof (cases "sponsorBy x = sponsorId c")
        case True
        have "d (sponsorId c) < d (sponsorId x)" using forest_child_code[OF fr c x True] .
        then have "y = x" using fixed[OF x kx] True mc by simp
        then show ?thesis by simp
      next
        case False
        have "\<not> P x" using P1[of x] False by blast
        moreover have "\<not> P y" using P2[OF False, of y] keeps_fields(3)[OF kx] by simp
        ultimately show ?thesis by simp
      qed
    qed
    then show "filter P db' = filter P db" using filter_list_all2[OF k] by blast
  qed
  show ?thesis
    unfolding quiet_def
  proof (intro conjI ballI impI)
    show "\<not> (3 \<le> length (sponsorTree a') \<and> level a' < 1)"
      using la q fa by (auto simp: quiet_def)
    show "level a' \<le> 4" using la q by (auto simp: quiet_def)
  next
    fix c' assume c': "c' \<in> set db'" and cs': "sponsorBy c' = sponsorId a'"
    obtain c where c: "c \<in> set db" and kc: "keeps d m c c'"
      using list_all2_source[OF k c'] by blast
    have cs: "sponsorBy c = sponsorId a" using cs' fa keeps_fields(3)[OF kc] by simp
    have e: "c' = c" using child_fixed[OF c kc cs] .
    have c1: "filter (subReferrals c) db' = filter (subReferrals c) db"
      by (rule cnt[OF c cs]) (simp_all add: subReferrals_def)
    have c2: "filter (subReferralsAt 2 c) db' = filter (subReferralsAt 2 c) db"
      by (rule cnt[OF c cs]) (simp_all add: subReferralsAt_def)
    have c3: "filter (subReferralsAt 3 c) db' = filter (subReferralsAt 3 c) db"
      by (rule cnt[OF c cs]) (simp_all add: subReferralsAt_def)
    have qc: "\<not> (3 \<le> length (filter (subReferrals c) db) \<and> level c < 2)
           \<and> \<not> (level c = 2 \<and> 3 \<le> length (filter (subReferralsAt 2 c) db))
           \<and> \<not> (level c = 3 \<and> 3 \<le> length (filter (subReferralsAt 3 c) db))"
      using q c cs unfolding quiet_def by blast
    show "\<not> (3 \<le> length (filter (subReferrals c') db') \<and> level c' < 2)"
      unfolding e c1 using qc by blast
    show "\<not> (level c' = 2 \<and> 3 \<le> length (filter (subReferralsAt 2 c') db'))"
      unfolding e c2 using qc by blast
    show "\<not> (level c' = 3 \<and> 3 \<le> length (filter (subReferralsAt 3 c') db'))"
      unfolding e c3 using qc by blast
  qed
qed

lemma keeps_findById:
  "list_all2 (keeps d m) a b \<Longrightarrow> findById i a = Some x
   \<Longrightarrow> \<exists>y. findById i b = Some y \<and> keeps d m x y"
  unfolding findById_def
  by (induction rule: list_all2_induct) (auto simp: keeps_fields)

lemma keeps_find_code:
  "list_all2 (keeps d m) a b \<Longrightarrow> find (\<lambda>u. sponsorId u = s) a = Some x
   \<Longrightarrow> \<exists>y. find (\<lambda>u. sponsorId u = s) b = Some y \<and> keeps d m x y"
  by (induction rule: list_all2_induct) (auto simp: keeps_fields)

lemma keeps_find_code_None:
  "list_all2 (keeps d m) a b \<Longrightarrow> find (\<lambda>u. sponsorId u = s) a = None
   \<Longrightarrow> find (\<lambda>u. sponsorId u = s) b = None"
  by (induction rule: list_all2_induct) (auto simp: keeps_fields)

subsection \<open>Running the engine twice\<close>

lemma forest_mem_findById:
  "forest d db \<Longrightarrow> q \<in> set db \<Longrightarrow> findById (uid q) db = Some q"
  using findById_mem by (simp add: forest_def)

lemma forest_parent_below:
  assumes fr: "forest d db" and z: "z \<in> set db"
    and p: "find (\<lambda>u. sponsorId u = sponsorBy z) db = Some q"
  shows "q \<in> set db" and "d (sponsorId q) < d (sponsorId z)"
proof -
  show m: "q \<in> set db" using find_Some_set[OF p] by simp
  have "sponsorBy z = sponsorId q" using find_Some_set[OF p] by simp
  then show "d (sponsorId q) < d (sponsorId z)" using forest_child_code[OF fr m z] by simp
qed

lemma updateSponsorLevels_keeps:
  "forest d db \<Longrightarrow> \<forall>z. findById i db = Some z \<longrightarrow> d (sponsorId z) \<le> m
   \<Longrightarrow> updateSponsorLevels fuel i db = Some db1 \<Longrightarrow> list_all2 (keeps d m) db db1"
proof (induction fuel arbitrary: i db)
  case 0
  then show ?case by simp
next
  case (Suc fuel)
  show ?case
  proof (cases "findById i db")
    case None
    then show ?thesis using Suc.prems(3) by (simp add: keeps_list_refl)
  next
    case (Some z)
    then have z: "z \<in> set db" using find_uid[of i db z] by (simp add: findById_def)
    have dz: "d (sponsorId z) \<le> m" using Suc.prems(2) Some by simp
    let ?db' = "evalNode z db"
    have k1: "list_all2 (keeps d m) db ?db'" using evalNode_keeps[OF Suc.prems(1) z dz] .
    have fr': "forest d ?db'" using forest_keeps[OF Suc.prems(1) k1] .
    show ?thesis
    proof (cases "sponsorBy z \<noteq> ''root''")
      case False
      then show ?thesis using Suc.prems(3) Some k1 by (simp add: Let_def)
    next
      case True
      show ?thesis
      proof (cases "find (\<lambda>u. sponsorId u = sponsorBy z) ?db'")
        case None
        then show ?thesis using Suc.prems(3) Some True k1 by (simp add: Let_def)
      next
        case (Some q)
        have r: "updateSponsorLevels fuel (uid q) ?db' = Some db1"
          using Suc.prems(3) \<open>findById i db = Some z\<close> True Some by (simp add: Let_def)
        obtain z' where z': "findById i ?db' = Some z'" and kz: "keeps d m z z'"
          using keeps_findById[OF k1 \<open>findById i db = Some z\<close>] by blast
        have z'm: "z' \<in> set ?db'" using z' find_uid[of i ?db' z'] by (simp add: findById_def)
        have by': "sponsorBy z' = sponsorBy z" and sid': "sponsorId z' = sponsorId z"
          using keeps_fields[OF kz] by simp_all
        have p': "find (\<lambda>u. sponsorId u = sponsorBy z') ?db' = Some q" using Some by' by simp
        have qm: "q \<in> set ?db'" and dq: "d (sponsorId q) < d (sponsorId z')"
          using forest_parent_below[OF fr' z'm p'] by simp_all
        have fq: "findById (uid q) ?db' = Some q" using forest_mem_findById[OF fr' qm] .
        have b: "\<forall>x. findById (uid q) ?db' = Some x \<longrightarrow> d (sponsorId x) \<le> m"
          using fq dq dz sid' by simp
        have "list_all2 (keeps d m) ?db' db1" using Suc.IH[OF fr' b r] .
        then show ?thesis using k1 keeps_list_trans by blast
      qed
    qed
  qed
qed

lemma updateSponsorLevels_again:
  "forest d db \<Longrightarrow> updateSponsorLevels fuel i db = Some db1
   \<Longrightarrow> updateSponsorLevels fuel i db1 = Some db1"
proof (induction fuel arbitrary: i db)
  case 0
  then show ?case by simp
next
  case (Suc fuel)
  show ?case
  proof (cases "findById i db")
    case None
    then show ?thesis using Suc.prems(2) by simp
  next
    case (Some z)
    then have z: "z \<in> set db" and uz: "uid z = i"
      using find_uid[of i db z] by (simp_all add: findById_def)
    let ?db' = "evalNode z db"
    obtain z' where z': "findById i ?db' = Some z'" and qz: "quiet z' ?db'"
      using evalNode_quiet[OF Suc.prems(1) z] uz by auto
    have k1: "list_all2 (keeps d (d (sponsorId z))) db ?db'"
      using evalNode_keeps[OF Suc.prems(1) z] by simp
    have fr': "forest d ?db'" using forest_keeps[OF Suc.prems(1) k1] .
    have z'm: "z' \<in> set ?db'" and uz': "uid z' = i"
      using z' find_uid[of i ?db' z'] by (simp_all add: findById_def)
    obtain y where "findById i ?db' = Some y" and "keeps d (d (sponsorId z)) z y"
      using keeps_findById[OF k1 Some] by blast
    then have kz: "keeps d (d (sponsorId z)) z z'" using z' by simp
    have by': "sponsorBy z' = sponsorBy z" using keeps_fields[OF kz] by simp
    have same: "evalNode z' ?db' = ?db'" using quiet_evalNode[OF qz] .
    show ?thesis
    proof (cases "sponsorBy z \<noteq> ''root''")
      case False
      then have "db1 = ?db'" using Suc.prems(2) Some by (simp add: Let_def)
      then show ?thesis using z' same by' False by (simp add: Let_def)
    next
      case True
      show ?thesis
      proof (cases "find (\<lambda>u. sponsorId u = sponsorBy z) ?db'")
        case None
        then have "db1 = ?db'" using Suc.prems(2) Some True by (simp add: Let_def)
        then show ?thesis using z' same by' True None by (simp add: Let_def)
      next
        case (Some q)
        have r: "updateSponsorLevels fuel (uid q) ?db' = Some db1"
          using Suc.prems(2) \<open>findById i db = Some z\<close> True Some by (simp add: Let_def)
        have p': "find (\<lambda>u. sponsorId u = sponsorBy z') ?db' = Some q" using Some by' by simp
        have qm: "q \<in> set ?db'" and dq: "d (sponsorId q) < d (sponsorId z')"
          using forest_parent_below[OF fr' z'm p'] by simp_all
        have fq: "findById (uid q) ?db' = Some q" using forest_mem_findById[OF fr' qm] .
        have b: "\<forall>x. findById (uid q) ?db' = Some x \<longrightarrow> d (sponsorId x) \<le> d (sponsorId q)"
          using fq by simp
        have k2: "list_all2 (keeps d (d (sponsorId q))) ?db' db1"
          using updateSponsorLevels_keeps[OF fr' b r] .
        obtain z1 where z1: "findById i db1 = Some z1" and kz1: "keeps d (d (sponsorId q)) z' z1"
          using keeps_findById[OF k2 z'] by blast
        have q1: "quiet z1 db1"
          using keeps_quiet[OF fr' k2 z'm dq qz] z1 uz' by simp
        have same1: "evalNode z1 db1 = db1" using quiet_evalNode[OF q1] .
        have by1: "sponsorBy z1 = sponsorBy z" using keeps_fields[OF kz1] by' by simp
        obtain q' where q': "find (\<lambda>u. sponsorId u = sponsorBy z) db1 = Some q'"
          and kq: "keeps d (d (sponsorId q)) q q'"
          using keeps_find_code[OF k2 Some] by blast
        have uq: "uid q' = uid q" using keeps_fields[OF kq] by simp
        have again: "updateSponsorLevels fuel (uid q) db1 = Some db1" using Suc.IH[OF fr' r] .
        show ?thesis using z1 same1 by1 True q' uq again by (simp add: Let_def)
      qed
    qed
  qed
qed

lemma updateSponsorLevels_returns:
  "forest d db \<Longrightarrow> 0 < fuel \<Longrightarrow> \<forall>z. findById i db = Some z \<longrightarrow> d (sponsorId z) < fuel
   \<Longrightarrow> updateSponsorLevels fuel i db \<noteq> None"
proof (induction fuel arbitrary: i db)
  case 0
  then show ?case by simp
next
  case (Suc fuel)
  show ?case
  proof (cases "findById i db")
    case None
    then show ?thesis by simp
  next
    case (Some z)
    then have z: "z \<in> set db" using find_uid[of i db z] by (simp add: findById_def)
    have dz: "d (sponsorId z) < Suc fuel" using Suc.prems(3) Some by simp
    let ?db' = "evalNode z db"
    have k1: "list_all2 (keeps d (d (sponsorId z))) db ?db'"
      using evalNode_keeps[OF Suc.prems(1) z] by simp
    have fr': "forest d ?db'" using forest_keeps[OF Suc.prems(1) k1] .
    show ?thesis
    proof (cases "sponsorBy z \<noteq> ''root''")
      case False
      then show ?thesis using Some by (simp add: Let_def)
    next
      case True
      show ?thesis
      proof (cases "find (\<lambda>u. sponsorId u = sponsorBy z) ?db'")
        case None
        then show ?thesis using Some True by (simp add: Let_def)
      next
        case (Some q)
        obtain z' where z': "findById i ?db' = Some z'" and kz: "keeps d (d (sponsorId z)) z z'"
          using keeps_findById[OF k1 \<open>findById i db = Some z\<close>] by blast
        have z'm: "z' \<in> set ?db'" using z' find_uid[of i ?db' z'] by (simp add: findById_def)
        have by': "sponsorBy z' = sponsorBy z" and sid': "sponsorId z' = sponsorId z"
          using keeps_fields[OF kz] by simp_all
        have p': "find (\<lambda>u. sponsorId u = sponsorBy z') ?db' = Some q" using Some by' by simp
        have qm: "q \<in> set ?db'" and dq: "d (sponsorId q) < d (sponsorId z')"
          using forest_parent_below[OF fr' z'm p'] by simp_all
        have fq: "findById (uid q) ?db' = Some q" using forest_mem_findById[OF fr' qm] .
        have lt: "d (sponsorId q) < fuel" using dq dz sid' by simp
        then have pos: "0 < fuel" by simp
        have b: "\<forall>x. findById (uid q) ?db' = Some x \<longrightarrow> d (sponsorId x) < fuel"
          using fq lt by simp
        have "updateSponsorLevels fuel (uid q) ?db' \<noteq> None" using Suc.IH[OF fr' pos b] .
        then show ?thesis using \<open>findById i db = Some z\<close> True Some by (simp add: Let_def)
      qed
    qed
  qed
qed

text \<open>
  C4. In a well-formed referral network (unique identifiers and referral codes, no user
  its own ancestor), when a run of the engine from a node returns, a second run from the
  same node on the store it left returns that very store: no rank of any user changes.
  The run does return whenever the number of calls allowed exceeds the rank of the start
  node's code.
\<close>

theorem leveling_is_idempotent:
  assumes "forest d db"
  shows "(\<forall>db1. updateSponsorLevels fuel i db = Some db1 \<longrightarrow> updateSponsorLevels fuel i db1 = Some db1)
         \<and> (0 < fuel \<and> (\<forall>z. findById i db = Some z \<longrightarrow> d (sponsorId z) < fuel)
              \<longrightarrow> updateSponsorLevels fuel i db \<noteq> None)"
  using assms updateSponsorLevels_again updateSponsorLevels_returns by blast

theorem leveling_is_idempotent_witness:
  "\<exists>db1. updateSponsorLevels 5 1 exFamily = Some db1 \<and> updateSponsorLevels 5 1 db1 = Some db1
         \<and> map level exFamily = [0, 0, 0, 0, 0] \<and> map level db1 = [0, 2, 0, 0, 0]"
proof -
  have fr: "forest length exFamily" by code_simp
  have b: "0 < (5::nat) \<and> (\<forall>z. findById 1 exFamily = Some z \<longrightarrow> length (sponsorId z) < 5)"
    by (simp add: findById_def exFamily_def exUser_def)
  have "updateSponsorLevels 5 1 exFamily \<noteq> None"
    using leveling_is_idempotent[OF fr, of 5 1] b by blast
  then obtain db1 where r: "updateSponsorLevels 5 1 exFamily = Some db1" by auto
  have again: "updateSponsorLevels 5 1 db1 = Some db1"
    using leveling_is_idempotent[OF fr, of 5 1] r by blast
  have "map_option (map level) (updateSponsorLevels 5 1 exFamily) = Some [0, 2, 0, 0, 0]"
    by code_simp
  then have l: "map level db1 = [0, 2, 0, 0, 0]" using r by simp
  have l0: "map level exFamily = [0, 0, 0, 0, 0]" by (simp add: exFamily_def exUser_def)
  show ?thesis using r again l l0 by (intro exI[of _ db1] conjI)
qed

subsection \<open>The outcomes of consuming a session\<close>

text \<open>
  C6. With every required field present, \<open>verifyOTPUser\<close> answers in this order:
  \<open>NotFound\<close> when no session has the given \<open>tempId\<close>; \<open>Expired\<close>, with the
  session gone from the store, when the clock is past \<open>createdAt\<close> plus ten minutes;
  \<open>InvalidOtp\<close> when the OTP differs from the stored one; \<open>Conflict\<close> when a verified
  user has the session's email or phone number. Otherwise it creates the user in verified
  state and runs the leveling engine from the sponsor, if the referral code names one, on
  the store that holds the new user; its answer is the success answer built from the
  store the engine returns, with the session deleted, and it answers exactly when the
  engine returns; in a well-formed network it does answer, whenever the number of calls
  allowed exceeds the rank of the sponsor's code.
\<close>

theorem verifyOTPUser_outcomes:
  assumes "tempId' \<noteq> []" and "otp' \<noteq> []" and "regFirstName reg \<noteq> []" and "regLastName reg \<noteq> []"
    and "regPassword reg \<noteq> []" and "regSponsorBy reg \<noteq> []" and "regGender reg \<noteq> []"
    and "distinct (map tid (tempUsers st))" and "distinct (map tempId (tempUsers st))"
  shows
    "(find (\<lambda>t. tempId t = tempId') (tempUsers st) = None \<longrightarrow>
        verifyOTPUser fuel reg tempId' otp' now newUid newSponsorId st = Some (Inl NotFound, st))
     \<and> (\<forall>t. find (\<lambda>t. tempId t = tempId') (tempUsers st) = Some t \<longrightarrow>
          (createdAt t + 600000 < now \<longrightarrow>
             (\<exists>st'. verifyOTPUser fuel reg tempId' otp' now newUid newSponsorId st = Some (Inl Expired, st')
                 \<and> users st' = users st
                 \<and> find (\<lambda>t. tempId t = tempId') (tempUsers st') = None))
        \<and> (\<not> createdAt t + 600000 < now \<and> otp t \<noteq> otp' \<longrightarrow>
             verifyOTPUser fuel reg tempId' otp' now newUid newSponsorId st = Some (Inl InvalidOtp, st))
        \<and> (\<not> createdAt t + 600000 < now \<and> otp t = otp'
             \<and> (\<exists>u \<in> set (users st). isVerified u \<and> (email u = tEmail t \<or> phoneNumber u = tPhoneNumber t)) \<longrightarrow>
             verifyOTPUser fuel reg tempId' otp' now newUid newSponsorId st = Some (Inl Conflict, st))
        \<and> (\<not> createdAt t + 600000 < now \<and> otp t = otp'
             \<and> (\<forall>u \<in> set (users st). email u \<noteq> tEmail t \<and> phoneNumber u \<noteq> tPhoneNumber t) \<longrightarrow>
             (let user = createUser reg (tEmail t) (tPhoneNumber t) newUid newSponsorId;
                  db = users st @ [user];
                  done = (\<lambda>db'. (Inr newUid :: error + nat,
                                  st\<lparr>users := db', tempUsers := deleteTemp (tid t) (tempUsers st)\<rparr>))
              in isVerified user
                 \<and> find (\<lambda>t. tempId t = tempId') (deleteTemp (tid t) (tempUsers st)) = None
                 \<and> verifyOTPUser fuel reg tempId' otp' now newUid newSponsorId st =
                     (case find (\<lambda>u. sponsorId u = regSponsorBy reg) db of
                        None \<Rightarrow> Some (done db)
                      | Some sponsor \<Rightarrow> map_option done (updateSponsorLevels fuel (uid sponsor) db))
                 \<and> (forest d db \<and> 0 < fuel
                      \<and> (\<forall>sponsor. find (\<lambda>u. sponsorId u = regSponsorBy reg) db = Some sponsor
                             \<longrightarrow> d (sponsorId sponsor) < fuel)
                    \<longrightarrow> (\<exists>db'. verifyOTPUser fuel reg tempId' otp' now newUid newSponsorId st
                                = Some (done db'))))))"
proof (intro conjI allI impI)
  assume "find (\<lambda>t. tempId t = tempId') (tempUsers st) = None"
  then show "verifyOTPUser fuel reg tempId' otp' now newUid newSponsorId st = Some (Inl NotFound, st)"
    using assms by (simp add: verifyOTPUser_def)
next
  fix t
  assume f: "find (\<lambda>t. tempId t = tempId') (tempUsers st) = Some t" and e: "createdAt t + 600000 < now"
  have "find (\<lambda>t. tempId t = tempId') (deleteTemp (tid t) (tempUsers st)) = None"
    using deleteTemp_removes_session[OF assms(8) assms(9) f] .
  then show "\<exists>st'. verifyOTPUser fuel reg tempId' otp' now newUid newSponsorId st = Some (Inl Expired, st')
                 \<and> users st' = users st
                 \<and> find (\<lambda>t. tempId t = tempId') (tempUsers st') = None"
    using assms f e by (simp add: verifyOTPUser_def)
next
  fix t
  assume f: "find (\<lambda>t. tempId t = tempId') (tempUsers st) = Some t"
    and c: "\<not> createdAt t + 600000 < now \<and> otp t \<noteq> otp'"
  show "verifyOTPUser fuel reg tempId' otp' now newUid newSponsorId st = Some (Inl InvalidOtp, st)"
    using assms f c by (simp add: verifyOTPUser_def)
next
  fix t
  assume f: "find (\<lambda>t. tempId t = tempId') (tempUsers st) = Some t"
    and c: "\<not> createdAt t + 600000 < now \<and> otp t = otp'
             \<and> (\<exists>u \<in> set (users st). isVerified u \<and> (email u = tEmail t \<or> phoneNumber u = tPhoneNumber t))"
  then have "find (\<lambda>u. email u = tEmail t \<or> phoneNumber u = tPhoneNumber t) (users st) \<noteq> None"
    by (auto simp: find_None_iff_set)
  then show "verifyOTPUser fuel reg tempId' otp' now newUid newSponsorId st = Some (Inl Conflict, st)"
    using assms f c by (simp add: verifyOTPUser_def)
next
  fix t
  assume f: "find (\<lambda>t. tempId t = tempId') (tempUsers st) = Some t"
    and c: "\<not> createdAt t + 600000 < now \<and> otp t = otp'
             \<and> (\<forall>u \<in> set (users st). email u \<noteq> tEmail t \<and> phoneNumber u \<noteq> tPhoneNumber t)"
  then have n: "find (\<lambda>u. email u = tEmail t \<or> phoneNumber u = tPhoneNumber t) (users st) = None"
    by (auto simp: find_None_iff_set)
  have d: "find (\<lambda>t. tempId t = tempId') (deleteTemp (tid t) (tempUsers st)) = None"
    using deleteTemp_removes_session[OF assms(8) assms(9) f] .
  show "let user = createUser reg (tEmail t) (tPhoneNumber t) newUid newSponsorId;
                  db = users st @ [user];
                  done = (\<lambda>db'. (Inr newUid :: error + nat,
                                  st\<lparr>users := db', tempUsers := deleteTemp (tid t) (tempUsers st)\<rparr>))
              in isVerified user
                 \<and> find (\<lambda>t. tempId t = tempId') (deleteTemp (tid t) (tempUsers st)) = None
                 \<and> verifyOTPUser fuel reg tempId' otp' now newUid newSponsorId st =
                     (case find (\<lambda>u. sponsorId u = regSponsorBy reg) db of
                        None \<Rightarrow> Some (done db)
                      | Some sponsor \<Rightarrow> map_option done (updateSponsorLevels fuel (uid sponsor) db))
                 \<and> (forest d db \<and> 0 < fuel
                      \<and> (\<forall>sponsor. find (\<lambda>u. sponsorId u = regSponsorBy reg) db = Some sponsor
                             \<longrightarrow> d (sponsorId sponsor) < fuel)
                    \<longrightarrow> (\<exists>db'. verifyOTPUser fuel reg tempId' otp' now newUid newSponsorId st
                                = Some (done db')))"
  proof -
    define user where "user = createUser reg (tEmail t) (tPhoneNumber t) newUid newSponsorId"
    define db where "db = users st @ [user]"
    define fin where "fin = (\<lambda>db'. (Inr newUid :: error + nat,
                                  st\<lparr>users := db', tempUsers := deleteTemp (tid t) (tempUsers st)\<rparr>))"
    have v: "isVerified user" by (simp add: user_def createUser_def)
    have e: "verifyOTPUser fuel reg tempId' otp' now newUid newSponsorId st =
                     (case find (\<lambda>u. sponsorId u = regSponsorBy reg) db of
                        None \<Rightarrow> Some (fin db)
                      | Some sponsor \<Rightarrow> map_option fin (updateSponsorLevels fuel (uid sponsor) db))"
      using assms f c n
      by (auto simp: verifyOTPUser_def Let_def createUser_def user_def db_def fin_def
          split: option.splits)
    have r: "forest d db \<and> 0 < fuel
                      \<and> (\<forall>sponsor. find (\<lambda>u. sponsorId u = regSponsorBy reg) db = Some sponsor
                             \<longrightarrow> d (sponsorId sponsor) < fuel)
                    \<longrightarrow> (\<exists>db'. verifyOTPUser fuel reg tempId' otp' now newUid newSponsorId st
                                = Some (fin db'))"
    proof (intro impI)
      assume h: "forest d db \<and> 0 < fuel
                      \<and> (\<forall>sponsor. find (\<lambda>u. sponsorId u = regSponsorBy reg) db = Some sponsor
                             \<longrightarrow> d (sponsorId sponsor) < fuel)"
      show "\<exists>db'. verifyOTPUser fuel reg tempId' otp' now newUid newSponsorId st = Some (fin db')"
      proof (cases "find (\<lambda>u. sponsorId u = regSponsorBy reg) db")
        case None
        then show ?thesis using e by auto
      next
        case (Some sponsor)
        have m: "sponsor \<in> set db" using find_Some_set[OF Some] by simp
        have fs: "findById (uid sponsor) db = Some sponsor" using forest_mem_findById h m by blast
        have "\<forall>z. findById (uid sponsor) db = Some z \<longrightarrow> d (sponsorId z) < fuel"
          using fs h Some by simp
        then have "updateSponsorLevels fuel (uid sponsor) db \<noteq> None"
          using updateSponsorLevels_returns h by blast
        then show ?thesis using e Some by auto
      qed
    qed
    show ?thesis using v d e r unfolding Let_def user_def db_def fin_def by blast
  qed
qed


theorem verifyOTPUser_outcomes_witness:
  "verifyOTPUser 5 (exReg ''S'') ''T9'' ''123456'' 2000 1 ''S1'' exState = Some (Inl NotFound, exState)
   \<and> (\<exists>st'. verifyOTPUser 5 (exReg ''S'') ''T1'' ''123456'' 700000 1 ''S1'' exState = Some (Inl Expired, st')
          \<and> find (\<lambda>t. tempId t = ''T1'') (tempUsers st') = None)
   \<and> verifyOTPUser 5 (exReg ''S'') ''T1'' ''000000'' 2000 1 ''S1'' exState = Some (Inl InvalidOtp, exState)
   \<and> verifyOTPUser 5 (exReg ''S'') ''T1'' ''123456'' 2000 1 ''S1''
        (exState\<lparr>users := [(exUser 0 ''S'' ''root'' [] 0)\<lparr>email := ''ann@example.org''\<rparr>]\<rparr>)
      = Some (Inl Conflict, exState\<lparr>users := [(exUser 0 ''S'' ''root'' [] 0)\<lparr>email := ''ann@example.org''\<rparr>]\<rparr>)
   \<and> verifyOTPUser 5 (exReg ''S'') ''T1'' ''123456'' 2000 1 ''S1'' exState
      = Some (Inr 1, exState\<lparr>users := users exState @
                 [createUser (exReg ''S'') ''ann@example.org'' ''111'' 1 ''S1''], tempUsers := []\<rparr>)
   \<and> forest length (users exState @ [createUser (exReg ''S'') ''ann@example.org'' ''111'' 1 ''S1''])
   \<and> (\<exists>db'. verifyOTPUser 5 (exReg ''S'') ''T1'' ''123456'' 2000 1 ''S1'' exState
            = Some (Inr 1, exState\<lparr>users := db', tempUsers := []\<rparr>))"
proof -
  let ?c = "exState\<lparr>users := [(exUser 0 ''S'' ''root'' [] 0)\<lparr>email := ''ann@example.org''\<rparr>]\<rparr>"
  have reg: "regFirstName (exReg ''S'') \<noteq> []" "regLastName (exReg ''S'') \<noteq> []"
    "regPassword (exReg ''S'') \<noteq> []" "regSponsorBy (exReg ''S'') \<noteq> []" "regGender (exReg ''S'') \<noteq> []"
    by (simp_all add: exReg_def)
  have ne: "''T9'' \<noteq> []" "''T1'' \<noteq> []" "''123456'' \<noteq> []" "''000000'' \<noteq> []" by simp_all
  have d: "distinct (map tid (tempUsers exState))" "distinct (map tempId (tempUsers exState))"
    "distinct (map tid (tempUsers ?c))" "distinct (map tempId (tempUsers ?c))"
    by (simp_all add: exState_def)
  have f9: "find (\<lambda>t. tempId t = ''T9'') (tempUsers exState) = None"
    by (simp add: exState_def exSession_def)
  have f1: "find (\<lambda>t. tempId t = ''T1'') (tempUsers exState) = Some exSession"
    "find (\<lambda>t. tempId t = ''T1'') (tempUsers ?c) = Some exSession"
    by (simp_all add: exState_def exSession_def)
  have s: "createdAt exSession = 1000" "otp exSession = ''123456''" "tid exSession = 0"
    "tEmail exSession = ''ann@example.org''" "tPhoneNumber exSession = ''111''"
    by (simp_all add: exSession_def)
  have p1: "verifyOTPUser 5 (exReg ''S'') ''T9'' ''123456'' 2000 1 ''S1'' exState = Some (Inl NotFound, exState)"
    using verifyOTPUser_outcomes[OF ne(1) ne(3) reg d(1) d(2), of 5 2000 1 "''S1''"] f9 by simp
  have p2: "\<exists>st'. verifyOTPUser 5 (exReg ''S'') ''T1'' ''123456'' 700000 1 ''S1'' exState = Some (Inl Expired, st')
          \<and> find (\<lambda>t. tempId t = ''T1'') (tempUsers st') = None"
    using verifyOTPUser_outcomes[OF ne(2) ne(3) reg d(1) d(2), of 5 700000 1 "''S1''"] f1(1) s by auto
  have p3: "verifyOTPUser 5 (exReg ''S'') ''T1'' ''000000'' 2000 1 ''S1'' exState = Some (Inl InvalidOtp, exState)"
    using verifyOTPUser_outcomes[OF ne(2) ne(4) reg d(1) d(2), of 5 2000 1 "''S1''"] f1(1) s by auto
  have p4: "verifyOTPUser 5 (exReg ''S'') ''T1'' ''123456'' 2000 1 ''S1'' ?c = Some (Inl Conflict, ?c)"
    using verifyOTPUser_outcomes[OF ne(2) ne(3) reg d(3) d(4), of 5 2000 1 "''S1''"] f1(2) s
    by (auto simp: exUser_def)
  have u: "\<forall>u \<in> set (users exState). email u \<noteq> tEmail exSession \<and> phoneNumber u \<noteq> tPhoneNumber exSession"
    by (simp add: exState_def exUser_def exSession_def)
  have sp: "find (\<lambda>u. sponsorId u = regSponsorBy (exReg ''S''))
              (users exState @ [createUser (exReg ''S'') ''ann@example.org'' ''111'' 1 ''S1''])
            = Some (exUser 0 ''S'' ''root'' [] 0)"
    by (simp add: exState_def exUser_def exReg_def)
  have run: "updateSponsorLevels 5 (uid (exUser 0 ''S'' ''root'' [] 0))
              (users exState @ [createUser (exReg ''S'') ''ann@example.org'' ''111'' 1 ''S1''])
            = Some (users exState @ [createUser (exReg ''S'') ''ann@example.org'' ''111'' 1 ''S1''])"
    by code_simp
  have dl: "deleteTemp 0 (tempUsers exState) = []" by (simp add: exState_def exSession_def)
  have p5: "verifyOTPUser 5 (exReg ''S'') ''T1'' ''123456'' 2000 1 ''S1'' exState
      = Some (Inr 1, exState\<lparr>users := users exState @
                 [createUser (exReg ''S'') ''ann@example.org'' ''111'' 1 ''S1''], tempUsers := []\<rparr>)"
    using verifyOTPUser_outcomes[OF ne(2) ne(3) reg d(1) d(2), of 5 2000 1 "''S1''" length] f1(1) s u sp run dl
    by (simp add: Let_def)
  have fr: "forest length (users exState @ [createUser (exReg ''S'') ''ann@example.org'' ''111'' 1 ''S1''])"
    by code_simp
  have bd: "(0::nat) < 5
      \<and> (\<forall>sponsor. find (\<lambda>u. sponsorId u = regSponsorBy (exReg ''S''))
              (users exState @ [createUser (exReg ''S'') ''ann@example.org'' ''111'' 1 ''S1''])
            = Some sponsor \<longrightarrow> length (sponsorId sponsor) < 5)"
    using sp by (simp add: exUser_def)
  have p6: "\<exists>db'. verifyOTPUser 5 (exReg ''S'') ''T1'' ''123456'' 2000 1 ''S1'' exState
            = Some (Inr 1, exState\<lparr>users := db', tempUsers := []\<rparr>)"
  proof -
    have a: "\<not> createdAt exSession + 600000 < 2000 \<and> otp exSession = ''123456''
        \<and> (\<forall>u \<in> set (users exState). email u \<noteq> tEmail exSession \<and> phoneNumber u \<noteq> tPhoneNumber exSession)"
      using s u by simp
    note inst = verifyOTPUser_outcomes[OF ne(2) ne(3) reg d(1) d(2), of 5 2000 1 "''S1''" length,
        THEN conjunct2, rule_format, OF f1(1), THEN conjunct2, THEN conjunct2, THEN conjunct2,
        rule_format, OF a, unfolded Let_def s]
    have "\<exists>db'. verifyOTPUser 5 (exReg ''S'') ''T1'' ''123456'' 2000 1 ''S1'' exState
            = Some (Inr 1, exState\<lparr>users := db', tempUsers := deleteTemp 0 (tempUsers exState)\<rparr>)"
      using inst fr bd by blast
    then show ?thesis by (simp only: dl)
  qed
  show ?thesis using p1 p2 p3 p4 p5 fr p6 by blast
qed

end
